theory Spec2Isabelle
  imports Complex_Main
begin

section \<open>Errors\<close>

text \<open>
  A thrown JavaScript \<open>Error\<close> (or a rejected promise) is a value: \<open>Inl (Error msg)\<close>
  of the result type \<open>error + 'a\<close>.
\<close>

datatype error = Error string | TypeError string | URIError string

section \<open>Cancellation tokens (utils.ts)\<close>

text \<open>
  A \<open>CancellationTokenSource\<close> of vscode-jsonrpc is a heap object whose only state
  is whether cancellation was requested. The heap of sources is a list indexed by
  address; a token is identified with the address of its source. The registry is
  the \<open>WeakMap\<close> from key to source. The trace \<open>events\<close> records each call of
  \<open>cancel()\<close> and each \<open>new CancellationTokenSource()\<close> in program order.
\<close>

type_synonym source_id = nat

datatype 'k token_event = CancelCalled source_id | SourceCreated 'k source_id

record 'k token_store =
  sources :: "bool list"
  registry :: "'k \<Rightarrow> source_id option"
  events :: "'k token_event list"

definition empty_store :: "'k token_store" where
  "empty_store = \<lparr>sources = [], registry = (\<lambda>_. None), events = []\<rparr>"

definition isCancellationRequested :: "'k token_store \<Rightarrow> source_id \<Rightarrow> bool" where
  "isCancellationRequested s i = (sources s ! i)"

definition cancel :: "source_id \<Rightarrow> 'k token_store \<Rightarrow> 'k token_store" where
  "cancel i s = s\<lparr>sources := (sources s)[i := True], events := events s @ [CancelCalled i]\<rparr>"

definition cancelAndRefreshCancellationToken ::
  "'k \<Rightarrow> 'k token_store \<Rightarrow> source_id \<times> 'k token_store" where
  "cancelAndRefreshCancellationToken key s =
     (let s1 = (case registry s key of
                  Some old \<Rightarrow> if \<not> isCancellationRequested s old then cancel old s else s
                | None \<Rightarrow> s);
          fresh = length (sources s1);
          s2 = s1\<lparr>sources := sources s1 @ [False],
                  registry := (registry s1)(key \<mapsto> fresh),
                  events := events s1 @ [SourceCreated key fresh]\<rparr>
      in (fresh, s2))"

text \<open>
  \<open>doWithCancellationToken\<close>: the awaited \<open>work\<close> receives the fresh token; while it
  is pending other tasks may touch the registry, so it returns the store it left
  behind together with its outcome. A rejection propagates out of the \<open>await\<close>, so
  the statement \<open>cancellationTokens.delete(key)\<close> after it is not reached.
\<close>

definition doWithCancellationToken ::
  "'k \<Rightarrow> (source_id \<Rightarrow> 'k token_store \<Rightarrow> (error + 'r) \<times> 'k token_store)
     \<Rightarrow> 'k token_store \<Rightarrow> (error + 'r) \<times> 'k token_store" where
  "doWithCancellationToken key work s =
     (let (token, s1) = cancelAndRefreshCancellationToken key s;
          (result, s2) = work token s1
      in case result of
           Inl err \<Rightarrow> (Inl err, s2)
         | Inr v \<Rightarrow> (Inr v, s2\<lparr>registry := (registry s2)(key := None)\<rparr>))"

text \<open>
  A token is live for a key when it was created for that key and cancellation has
  not been requested on it.
\<close>

definition live_for :: "'k token_store \<Rightarrow> 'k \<Rightarrow> source_id \<Rightarrow> bool" where
  "live_for s k i =
     (SourceCreated k i \<in> set (events s) \<and> i < length (sources s) \<and> \<not> sources s ! i)"

text \<open>Well-formed store: every registered source is allocated.\<close>

definition store_wf :: "'k token_store \<Rightarrow> bool" where
  "store_wf s = (\<forall>k i. registry s k = Some i \<longrightarrow> i < length (sources s))"

text \<open>
  The invariant of a registry that is only ever changed by
  \<open>cancelAndRefreshCancellationToken\<close>: a registered source was created for its
  key, created sources are allocated and belong to one key, and every live token
  is the current entry of its key.
\<close>

definition store_inv :: "'k token_store \<Rightarrow> bool" where
  "store_inv s =
     ((\<forall>k i. registry s k = Some i \<longrightarrow> SourceCreated k i \<in> set (events s))
      \<and> (\<forall>k i. SourceCreated k i \<in> set (events s) \<longrightarrow> i < length (sources s))
      \<and> (\<forall>k k' i. SourceCreated k i \<in> set (events s) \<longrightarrow> SourceCreated k' i \<in> set (events s)
            \<longrightarrow> k = k')
      \<and> (\<forall>k i. live_for s k i \<longrightarrow> registry s k = Some i))"

section \<open>Crash handling of a language server (auto-languageclient.ts)\<close>

text \<open>
  What the close handler installed by \<open>startServer\<close> does to the outside world is
  recorded as a trace of effects, in program order.
\<close>

datatype effect =
    StopServer string
  | StartServer string
  | LogDebug string
  | LogWarn string
  | LogError string
  | NotifyError string

text \<open>
  The server manager keeps, per project path, the number of consecutive
  unexpected terminations; \<open>restartLimit\<close> is the configured budget.
\<close>

record client_state =
  isDeactivating :: bool
  restartLimit :: nat
  restartCounter :: "string \<Rightarrow> nat"
  effects :: "effect list"

text \<open>
  Modelled from the spec: \<open>ServerManager.hasServerReachedRestartLimit\<close>,
  \<open>ServerManager.stopServer\<close> and \<open>ServerManager.startServer\<close> (server-manager.ts
  is not among the sources). The restart budget is a per-root counter of
  consecutive unexpected terminations; after exactly \<open>N\<close> of them (\<open>N\<close> the
  configured budget) the budget is exhausted, so the query counts the present
  termination and answers whether the count has passed \<open>N\<close>. Stopping and starting
  a server are recorded as effects.
\<close>

definition hasServerReachedRestartLimit :: "string \<Rightarrow> client_state \<Rightarrow> bool \<times> client_state" where
  "hasServerReachedRestartLimit projectPath st =
     (let restarts = restartCounter st projectPath + 1
      in (restarts > restartLimit st,
          st\<lparr>restartCounter := (restartCounter st)(projectPath := restarts)\<rparr>))"

definition stopServer :: "string \<Rightarrow> client_state \<Rightarrow> client_state" where
  "stopServer projectPath st = st\<lparr>effects := effects st @ [StopServer projectPath]\<rparr>"

definition startServer :: "string \<Rightarrow> client_state \<Rightarrow> client_state" where
  "startServer projectPath st = st\<lparr>effects := effects st @ [StartServer projectPath]\<rparr>"

definition emit :: "effect \<Rightarrow> client_state \<Rightarrow> client_state" where
  "emit e st = st\<lparr>effects := effects st @ [e]\<rparr>"

definition restartingMessage :: "string \<Rightarrow> string" where
  "restartingMessage projectPath =
     ''Restarting language server for project '' @ [CHR 0x27] @ projectPath @ [CHR 0x27]"

definition limitWarning :: "string \<Rightarrow> string" where
  "limitWarning projectPath =
     ''Language server has exceeded auto-restart limit for project ''
       @ [CHR 0x27] @ projectPath @ [CHR 0x27]"

definition limitNotification :: "string \<Rightarrow> string \<Rightarrow> string" where
  "limitNotification name projectPath =
     ''The '' @ name
       @ '' language server has exited because it exceeded the restart limit for project ''
       @ [CHR 0x27] @ projectPath @ [CHR 0x27] @ ''.''"

text \<open>
  The handler of the connection's \<open>close\<close> event, for the server of
  \<open>projectPath\<close>; \<open>name\<close> is the client's display name.
\<close>

definition onConnectionClose :: "string \<Rightarrow> string \<Rightarrow> client_state \<Rightarrow> client_state" where
  "onConnectionClose name projectPath st =
     (if isDeactivating st then st
      else
        let st1 = stopServer projectPath st;
            (reached, st2) = hasServerReachedRestartLimit projectPath st1
        in if \<not> reached then
             startServer projectPath (emit (LogDebug (restartingMessage projectPath)) st2)
           else
             emit (NotifyError (limitNotification name projectPath))
               (emit (LogWarn (limitWarning projectPath)) st2))"

text \<open>\<open>n\<close> unexpected terminations in a row of the server of one project path.\<close>

fun closes :: "nat \<Rightarrow> string \<Rightarrow> string \<Rightarrow> client_state \<Rightarrow> client_state" where
  "closes 0 name projectPath st = st"
| "closes (Suc n) name projectPath st =
     onConnectionClose name projectPath (closes n name projectPath st)"

section \<open>Creating the RPC connection (auto-languageclient.ts)\<close>

text \<open>
  The spawned process exposes optional standard streams (identified by number).
  \<open>createRpcConnection\<close> returns a message connection built from a reader and a
  writer. \<open>assertUnreachable\<close> has the body \<open>return _\<close>, so at run time it hands back
  its argument; a value that is not a connection is \<open>NotAConnection\<close>.
\<close>

record LanguageServerProcess =
  stdin :: "nat option"
  stdout :: "nat option"

datatype message_reader = IPCMessageReader | SocketMessageReader nat | StreamMessageReader nat
datatype message_writer = IPCMessageWriter | SocketMessageWriter nat | StreamMessageWriter nat

datatype rpc_connection =
    MessageConnection message_reader message_writer
  | NotAConnection string

definition assertUnreachable :: "'a \<Rightarrow> 'a" where
  "assertUnreachable x = x"

definition createRpcConnection ::
  "string \<Rightarrow> string \<Rightarrow> nat \<Rightarrow> LanguageServerProcess \<Rightarrow> effect list \<Rightarrow> (error + rpc_connection) \<times> effect list" where
  "createRpcConnection connectionType languageName socket lsProcess logged =
     (if connectionType = ''ipc'' then
        (Inr (MessageConnection IPCMessageReader IPCMessageWriter), logged)
      else if connectionType = ''socket'' then
        (Inr (MessageConnection (SocketMessageReader socket) (SocketMessageWriter socket)), logged)
      else if connectionType = ''stdio'' then
        (case (stdin lsProcess, stdout lsProcess) of
           (Some i, Some out) \<Rightarrow>
             (Inr (MessageConnection (StreamMessageReader out) (StreamMessageWriter i)), logged)
         | _ \<Rightarrow>
             (Inr (NotAConnection (assertUnreachable ''stdio'')),
              logged @ [LogError (''The language server process for '' @ languageName
                       @ '' does not have a valid stdin and stdout.'')]))
      else (Inr (NotAConnection (assertUnreachable connectionType)), logged))"

section \<open>Path and URI conversion (convert.ts)\<close>

text \<open>
  The functions of the JavaScript platform that \<open>Convert\<close> calls are parameters:
  \<open>url_parse x\<close> stands for \<open>new URL(x, "file://")\<close> and is \<open>None\<close> when the
  constructor throws; of the URL object only \<open>protocol\<close> and \<open>pathname\<close> are read.
  \<open>encodeURI\<close>, \<open>encodeURIComponent\<close> and \<open>decodeURIComponent\<close> may throw a
  \<open>URIError\<close>; \<open>win32\<close> is \<open>process.platform === "win32"\<close>; \<open>localeCompare\<close> is
  \<open>String.prototype.localeCompare\<close>.
\<close>

datatype url = URL (protocol: string) (pathname: string)

record platform =
  url_parse :: "string \<Rightarrow> url option"
  encodeURI :: "string \<Rightarrow> error + string"
  encodeURIComponent :: "string \<Rightarrow> error + string"
  decodeURIComponent :: "string \<Rightarrow> error + string"
  win32 :: bool
  localeCompare :: "string \<Rightarrow> string \<Rightarrow> int"

text \<open>
  \<open>s.replace(/[c1c2...]/g, f)\<close> for a character class: every character of the class
  is replaced by \<open>f\<close> applied to it.
\<close>

fun replace_chars :: "(char \<Rightarrow> bool) \<Rightarrow> (string \<Rightarrow> error + string) \<Rightarrow> string \<Rightarrow> error + string" where
  "replace_chars cls f [] = Inr []"
| "replace_chars cls f (c # cs) =
     (if cls c then
        (case f [c] of
           Inl e \<Rightarrow> Inl e
         | Inr r \<Rightarrow> (case replace_chars cls f cs of Inl e \<Rightarrow> Inl e | Inr rs \<Rightarrow> Inr (r @ rs)))
      else (case replace_chars cls f cs of Inl e \<Rightarrow> Inl e | Inr rs \<Rightarrow> Inr (c # rs)))"

definition pathToUri :: "platform \<Rightarrow> string \<Rightarrow> error + string" where
  "pathToUri P filePath =
     (case url_parse P filePath of
        None \<Rightarrow> Inl (TypeError ''Invalid URL'')
      | Some u \<Rightarrow>
          if protocol u \<noteq> ''file:'' then Inr filePath
          else
            let replaced = map (\<lambda>c. if c = CHR 0x5C then CHR ''/'' else c) filePath;
                newPath = (case replaced of
                             [] \<Rightarrow> ''/'' @ replaced
                           | c # _ \<Rightarrow> if c \<noteq> CHR ''/'' then ''/'' @ replaced else replaced)
            in case encodeURI P (''file://'' @ newPath) of
                 Inl e \<Rightarrow> Inl e
               | Inr encoded \<Rightarrow>
                   replace_chars (\<lambda>c. c = CHR ''#'' \<or> c = CHR ''?'') (encodeURIComponent P) encoded)"

definition uriToPath :: "platform \<Rightarrow> string \<Rightarrow> error + string" where
  "uriToPath P uri =
     (case url_parse P uri of
        None \<Rightarrow> Inl (TypeError ''Invalid URL'')
      | Some u \<Rightarrow>
          if protocol u \<noteq> ''file:'' then Inr uri
          else
            (case decodeURIComponent P (pathname u) of
               Inl e \<Rightarrow> Inl e
             | Inr filePath \<Rightarrow>
                 if win32 P then
                   let filePath' = (case filePath of
                                      [] \<Rightarrow> filePath
                                    | c # cs \<Rightarrow> if c = CHR ''/'' then cs else filePath)
                   in Inr (map (\<lambda>c. if c = CHR ''/'' then CHR 0x5C else c) filePath')
                 else Inr filePath))"

section \<open>Points, positions and ranges\<close>

text \<open>
  \<open>Point\<close> and \<open>Range\<close> of Atom's text-buffer, \<open>Position\<close> and \<open>Range\<close> of the
  language server protocol, and the conversions of \<open>Convert\<close> between them. Rows,
  columns, lines and characters are JavaScript numbers, which the conversions pass
  through as they are (a computed column may be negative). The constructor of
  Atom's \<open>Range\<close> orders its two points: \<open>new_Range\<close>.
\<close>

datatype Point = Point (row: int) (column: int)
datatype AtomRange = AtomRange (range_start: Point) (range_end: Point)
datatype Position = Position (line: int) (character: int)
datatype LsRange = LsRange (ls_start: Position) (ls_end: Position)

definition point_compare :: "Point \<Rightarrow> Point \<Rightarrow> int" where
  "point_compare a b =
     (if row a > row b then 1
      else if row a < row b then -1
      else if column a > column b then 1
      else if column a < column b then -1
      else 0)"

definition isEqual :: "Point \<Rightarrow> Point \<Rightarrow> bool" where
  "isEqual a b = (row a = row b \<and> column a = column b)"

definition isLessThan :: "Point \<Rightarrow> Point \<Rightarrow> bool" where
  "isLessThan a b = (point_compare a b < 0)"

definition isLessThanOrEqual :: "Point \<Rightarrow> Point \<Rightarrow> bool" where
  "isLessThanOrEqual a b = (point_compare a b \<le> 0)"

definition isGreaterThan :: "Point \<Rightarrow> Point \<Rightarrow> bool" where
  "isGreaterThan a b = (point_compare a b > 0)"


definition new_Range :: "Point \<Rightarrow> Point \<Rightarrow> AtomRange" where
  "new_Range pointA pointB =
     (if isLessThanOrEqual pointA pointB then AtomRange pointA pointB else AtomRange pointB pointA)"

definition range_union :: "AtomRange \<Rightarrow> AtomRange \<Rightarrow> AtomRange" where
  "range_union a b =
     new_Range
       (if isLessThan (range_start a) (range_start b) then range_start a else range_start b)
       (if isGreaterThan (range_end a) (range_end b) then range_end a else range_end b)"

definition positionToPoint :: "Position \<Rightarrow> Point" where
  "positionToPoint position = Point (line position) (character position)"

definition pointToPosition :: "Point \<Rightarrow> Position" where
  "pointToPosition point = Position (row point) (column point)"

definition lsRangeToAtomRange :: "LsRange \<Rightarrow> AtomRange" where
  "lsRangeToAtomRange r = new_Range (positionToPoint (ls_start r)) (positionToPoint (ls_end r))"

text \<open>
  The \<open>length\<close> of a JavaScript string, in UTF-16 code units, counted on its UTF-8
  bytes: one unit for each byte that begins a character, and one more for a
  character of four bytes (a surrogate pair).
\<close>

definition js_length :: "string \<Rightarrow> nat" where
  "js_length s =
     length (filter (\<lambda>c. (of_char c :: nat) < 0x80 \<or> 0xC0 \<le> (of_char c :: nat)) s)
       + length (filter (\<lambda>c. 0xF0 \<le> (of_char c :: nat)) s)"

text \<open>Decimal rendering of numbers, as template strings and \<open>toString\<close> produce it.\<close>

definition digit :: "nat \<Rightarrow> char" where
  "digit d = char_of (d + 48)"

function decimal :: "nat \<Rightarrow> string" where
  "decimal n = (case n div 10 of
                  0 \<Rightarrow> [digit n]
                | Suc q \<Rightarrow> decimal (Suc q) @ [digit (n mod 10)])"
  by pat_completeness auto
termination
  by (relation "measure id") auto

declare decimal.simps [simp del]

definition number_toString :: "int \<Rightarrow> string" where
  "number_toString i = (if 0 \<le> i then decimal (nat i) else CHR ''-'' # decimal (nat \<bar>i\<bar>))"

definition point_toString :: "Point \<Rightarrow> string" where
  "point_toString p = ''('' @ number_toString (row p) @ '', '' @ number_toString (column p) @ '')''"

definition range_toString :: "AtomRange \<Rightarrow> string" where
  "range_toString r =
     ''['' @ point_toString (range_start r) @ '' - '' @ point_toString (range_end r) @ '']''"

section \<open>Completion items and suggestions (autocomplete-adapter.ts)\<close>

datatype documentation = DocString string | MarkupContent (doc_kind: string) (doc_value: string)

datatype ls_text_edit =
    TextEdit (edit_range: LsRange) (edit_newText: string)
  | InsertReplaceEdit (edit_newText: string) (edit_insert: LsRange) (edit_replace: LsRange)

datatype AtomTextEdit = AtomTextEdit (oldRange: AtomRange) (newText: string)

record CompletionItem =
  label :: string
  kind :: "nat option"
  detail :: "string option"
  documentation :: "documentation option"
  sortText :: "string option"
  insertText :: "string option"
  insertTextFormat :: "nat option"
  textEdit :: "ls_text_edit option"
  additionalTextEdits :: "ls_text_edit list option"

text \<open>
  A suggestion of autocomplete-plus. It starts as the empty object; an absent
  property is \<open>None\<close>. (\<open>text\<close>, \<open>type\<close>, \<open>textEdit\<close> and \<open>additionalTextEdits\<close> carry a
  suffix, the first two being reserved words here and the others fields of
  \<open>CompletionItem\<close> as well.)
\<close>

record Suggestion =
  text_sg :: "string option"
  snippet :: "string option"
  filterText :: "string option"
  displayText :: "string option"
  type_sg :: "string option"
  rightLabel :: "string option"
  description :: "string option"
  descriptionMarkdown :: "string option"
  textEdit_sg :: "AtomTextEdit option"
  additionalTextEdits_sg :: "AtomTextEdit list option"
  customReplacementPrefix :: "string option"
  replacementPrefix :: "string option"
  completionItem :: "CompletionItem option"

definition empty_suggestion :: Suggestion where
  "empty_suggestion =
     \<lparr>text_sg = None, snippet = None, filterText = None, displayText = None, type_sg = None,
      rightLabel = None, description = None, descriptionMarkdown = None, textEdit_sg = None,
      additionalTextEdits_sg = None, customReplacementPrefix = None, replacementPrefix = None,
      completionItem = None\<rparr>"

text \<open>
  The request of autocomplete-plus. Of the editor, the path and the text of a
  buffer range are read.
\<close>

record SuggestionsRequestedEvent =
  bufferPosition :: Point
  prefix :: string
  activatedManually :: bool
  editorPath :: "string option"
  getTextInBufferRange :: "AtomRange \<Rightarrow> string"

type_synonym CompletionItemAdjuster =
  "CompletionItem \<Rightarrow> Suggestion \<Rightarrow> SuggestionsRequestedEvent \<Rightarrow> Suggestion"

text \<open>\<open>a || b\<close> on an optional string: the empty string is falsy.\<close>

definition or_else :: "string option \<Rightarrow> string \<Rightarrow> string" where
  "or_else a b = (case a of None \<Rightarrow> b | Some s \<Rightarrow> if s = [] then b else s)"

definition convertLsTextEdit :: "LsRange \<Rightarrow> string \<Rightarrow> AtomTextEdit" where
  "convertLsTextEdit r t = AtomTextEdit (lsRangeToAtomRange r) t"

definition convertLsInsertReplaceEdit :: "string \<Rightarrow> LsRange \<Rightarrow> LsRange \<Rightarrow> bool \<Rightarrow> AtomTextEdit" where
  "convertLsInsertReplaceEdit t ins rep shouldReplace =
     AtomTextEdit (lsRangeToAtomRange (if shouldReplace then rep else ins)) t"

text \<open>
  \<open>Convert.convertLsTextEdits\<close> maps \<open>convertLsTextEdit\<close>, which reads \<open>range\<close> and
  \<open>newText\<close>; an insert-and-replace edit has no \<open>range\<close> and is not a member of the
  list's declared type.
\<close>

fun convertLsTextEdits :: "ls_text_edit list option \<Rightarrow> AtomTextEdit list" where
  "convertLsTextEdits None = []"
| "convertLsTextEdits (Some es) =
     map (\<lambda>e. convertLsTextEdit (edit_range e) (edit_newText e)) es"

text \<open>The numeric values are those of the protocol's \<open>CompletionItemKind\<close>.\<close>

definition completionKindToSuggestionType :: "nat option \<Rightarrow> string" where
  "completionKindToSuggestionType k =
     (if k = Some 21 then ''constant''
      else if k = Some 2 then ''method''
      else if k = Some 3 \<or> k = Some 4 then ''function''
      else if k = Some 5 \<or> k = Some 10 then ''property''
      else if k = Some 6 then ''variable''
      else if k = Some 7 then ''class''
      else if k = Some 22 \<or> k = Some 25 then ''type''
      else if k = Some 24 then ''selector''
      else if k = Some 8 then ''mixin''
      else if k = Some 9 then ''module''
      else if k = Some 11 then ''builtin''
      else if k = Some 13 \<or> k = Some 20 then ''enum''
      else if k = Some 14 then ''keyword''
      else if k = Some 15 then ''snippet''
      else if k = Some 17 \<or> k = Some 19 then ''import''
      else if k = Some 18 then ''require''
      else ''value'')"

definition applyDetailsToSuggestion :: "CompletionItem \<Rightarrow> Suggestion \<Rightarrow> Suggestion" where
  "applyDetailsToSuggestion item suggestion =
     (let s1 = suggestion\<lparr>rightLabel := detail item\<rparr>;
          s2 = (case documentation item of
                  Some (DocString d) \<Rightarrow> s1\<lparr>descriptionMarkdown := Some d, description := Some d\<rparr>
                | _ \<Rightarrow> s1)
      in case documentation item of
           Some (MarkupContent k v) \<Rightarrow>
             if k = ''markdown'' then s2\<lparr>descriptionMarkdown := Some v\<rparr>
             else s2\<lparr>description := Some v\<rparr>
         | _ \<Rightarrow> s2)"

definition applyCompletionItemToSuggestion ::
  "CompletionItem \<Rightarrow> Suggestion \<Rightarrow> real \<Rightarrow> bool \<Rightarrow> Suggestion" where
  "applyCompletionItemToSuggestion item suggestion apiVersion shouldReplace =
     (let s1 = suggestion\<lparr>text_sg := Some (or_else (insertText item) (label item)),
                          filterText := Some (label item),
                          displayText := Some (label item),
                          type_sg := Some (completionKindToSuggestionType (kind item))\<rparr>;
          s2 = applyDetailsToSuggestion item s1;
          s3 = (if apiVersion \<ge> 5.1 then
                  (let s2a = (case textEdit item of
                                Some (TextEdit r t) \<Rightarrow> s2\<lparr>textEdit_sg := Some (convertLsTextEdit r t)\<rparr>
                              | Some (InsertReplaceEdit t ins rep) \<Rightarrow>
                                  s2\<lparr>textEdit_sg := Some (convertLsInsertReplaceEdit t ins rep shouldReplace)\<rparr>
                              | None \<Rightarrow> s2)
                   in case additionalTextEdits item of
                        Some es \<Rightarrow> s2a\<lparr>additionalTextEdits_sg := Some (convertLsTextEdits (Some es))\<rparr>
                      | None \<Rightarrow> s2a)
                else s2)
      in s3\<lparr>completionItem := Some item\<rparr>)"

definition applyTextEditToSuggestion ::
  "ls_text_edit option \<Rightarrow> (AtomRange \<Rightarrow> string) \<Rightarrow> Point \<Rightarrow> Suggestion \<Rightarrow> bool \<Rightarrow> Suggestion" where
  "applyTextEditToSuggestion te editorText originalBufferPosition suggestion shouldReplace =
     (case te of
        None \<Rightarrow> suggestion
      | Some e \<Rightarrow>
          let r = (case e of
                     TextEdit r t \<Rightarrow> r
                   | InsertReplaceEdit t ins rep \<Rightarrow> if shouldReplace then rep else ins);
              atomRange = lsRangeToAtomRange r
          in suggestion\<lparr>customReplacementPrefix :=
               Some (editorText (new_Range (range_start atomRange) originalBufferPosition))\<rparr>)"

text \<open>\<open>InsertTextFormat.Snippet\<close> is 2.\<close>

definition applySnippetToSuggestion :: "CompletionItem \<Rightarrow> Suggestion \<Rightarrow> Suggestion" where
  "applySnippetToSuggestion item suggestion =
     (if insertTextFormat item = Some 2 then
        suggestion\<lparr>snippet := Some (case textEdit item of
                                       Some e \<Rightarrow> edit_newText e
                                     | None \<Rightarrow> or_else (insertText item) (label item))\<rparr>
      else suggestion)"

definition completionItemToSuggestion ::
  "CompletionItem \<Rightarrow> Suggestion \<Rightarrow> SuggestionsRequestedEvent \<Rightarrow> real \<Rightarrow> bool
     \<Rightarrow> CompletionItemAdjuster option \<Rightarrow> Suggestion" where
  "completionItemToSuggestion item suggestion request apiVersion shouldReplace onDidConvert =
     (let s1 = applyCompletionItemToSuggestion item suggestion apiVersion shouldReplace;
          s2 = (if apiVersion < 5.1 then
                  applyTextEditToSuggestion (textEdit item) (getTextInBufferRange request)
                    (bufferPosition request) s1 shouldReplace
                else s1);
          s3 = applySnippetToSuggestion item s2
      in case onDidConvert of None \<Rightarrow> s3 | Some f \<Rightarrow> f item s3 request)"

text \<open>
  \<open>Array.prototype.sort\<close> with a comparison function, as a stable insertion sort.
\<close>

fun insort_cmp :: "('a \<Rightarrow> 'a \<Rightarrow> int) \<Rightarrow> 'a \<Rightarrow> 'a list \<Rightarrow> 'a list" where
  "insort_cmp cmp x [] = [x]"
| "insort_cmp cmp x (y # ys) = (if cmp x y \<le> 0 then x # y # ys else y # insort_cmp cmp x ys)"

definition sort_cmp :: "('a \<Rightarrow> 'a \<Rightarrow> int) \<Rightarrow> 'a list \<Rightarrow> 'a list" where
  "sort_cmp cmp xs = foldr (insort_cmp cmp) xs []"

datatype completion_response =
    CompletionNull
  | CompletionArray "CompletionItem list"
  | CompletionList (list_isIncomplete: bool) (list_items: "CompletionItem list")

record PossiblyResolvedCompletionItem =
  completionItem_pr :: CompletionItem
  isResolved :: bool

definition completionItemsToSuggestions ::
  "platform \<Rightarrow> completion_response \<Rightarrow> SuggestionsRequestedEvent \<Rightarrow> real \<Rightarrow> bool
     \<Rightarrow> CompletionItemAdjuster option \<Rightarrow> (Suggestion \<times> PossiblyResolvedCompletionItem) list" where
  "completionItemsToSuggestions P completionItems request apiVersion shouldReplace onDidConvert =
     (let completionsArray = (case completionItems of
                                CompletionArray items \<Rightarrow> items
                              | CompletionList inc items \<Rightarrow> items
                              | CompletionNull \<Rightarrow> [])
      in map (\<lambda>s. (completionItemToSuggestion s empty_suggestion request apiVersion shouldReplace
                      onDidConvert,
                    \<lparr>completionItem_pr = s, isResolved = False\<rparr>))
           (sort_cmp (\<lambda>a b. localeCompare P (or_else (sortText a) (label a))
                                             (or_else (sortText b) (label b)))
              completionsArray))"

section \<open>The suggestion cache (autocomplete-adapter.ts)\<close>

datatype CompletionContext =
    Invoked
  | TriggerCharacter string
  | TriggerForIncompleteCompletions string

record CompletionParams =
  textDocument :: string
  position :: Position
  context_cp :: CompletionContext

definition createCompletionContext :: "string \<Rightarrow> bool \<Rightarrow> CompletionContext" where
  "createCompletionContext triggerCharacter triggerOnly =
     (if triggerCharacter = [] then Invoked
      else if triggerOnly then TriggerCharacter triggerCharacter
      else TriggerForIncompleteCompletions triggerCharacter)"

definition createCompletionParams ::
  "platform \<Rightarrow> SuggestionsRequestedEvent \<Rightarrow> string \<Rightarrow> bool \<Rightarrow> error + CompletionParams" where
  "createCompletionParams P request triggerCharacter triggerOnly =
     (case pathToUri P (case editorPath request of None \<Rightarrow> [] | Some p \<Rightarrow> p) of
        Inl e \<Rightarrow> Inl e
      | Inr uri \<Rightarrow>
          Inr \<lparr>textDocument = uri,
               position = pointToPosition (bufferPosition request),
               context_cp = createCompletionContext triggerCharacter triggerOnly\<rparr>)"

text \<open>
  The cache entry of a server. The keys of \<open>suggestionMap\<close> are suggestion objects,
  here addresses into the heap \<open>suggestions\<close> of the adapter state, in insertion
  order.
\<close>

record SuggestionCacheEntry =
  isIncomplete :: bool
  triggerPoint :: Point
  originalBufferPoint :: Point
  triggerChar :: string
  suggestionMap :: "(nat \<times> PossiblyResolvedCompletionItem) list"

text \<open>
  An active server is identified by its own identity and that of its connection.
  The behaviour of the connection (the language server's answers) is a parameter.
\<close>

record ActiveServer =
  server_id :: nat
  connection_id :: nat

record LanguageClientConnection =
  completion :: "CompletionParams \<Rightarrow> source_id \<Rightarrow> error + completion_response"
  completionItemResolve :: "CompletionItem \<Rightarrow> error + CompletionItem option"

datatype server_request =
    CompletionRequest CompletionParams source_id
  | ResolveRequest CompletionItem

record adapter_state =
  suggestionCache :: "nat \<Rightarrow> SuggestionCacheEntry option"
  cancellationTokens :: "nat token_store"
  suggestions :: "Suggestion list"
  requests :: "server_request list"

definition computeTriggerPoint :: "SuggestionsRequestedEvent \<Rightarrow> string \<Rightarrow> bool \<Rightarrow> Point" where
  "computeTriggerPoint request trigChar triggerOnly =
     (let triggerColumn =
            (if trigChar \<noteq> [] \<and> triggerOnly
             then column (bufferPosition request) - int (js_length trigChar)
             else column (bufferPosition request) - int (js_length (prefix request))
                    - int (js_length trigChar))
      in Point (row (bufferPosition request)) triggerColumn)"

definition cacheIsValid :: "SuggestionCacheEntry option \<Rightarrow> string \<Rightarrow> Point \<Rightarrow> Point \<Rightarrow> bool" where
  "cacheIsValid cache trigChar trigPoint bufferPos =
     (case cache of
        None \<Rightarrow> False
      | Some c \<Rightarrow> \<not> isIncomplete c \<and> triggerChar c = trigChar
                  \<and> isEqual (triggerPoint c) trigPoint
                  \<and> isLessThanOrEqual (originalBufferPoint c) bufferPos)"

definition getOrBuildSuggestions ::
  "platform \<Rightarrow> LanguageClientConnection \<Rightarrow> ActiveServer \<Rightarrow> SuggestionsRequestedEvent \<Rightarrow> string
     \<Rightarrow> bool \<Rightarrow> real \<Rightarrow> bool \<Rightarrow> CompletionItemAdjuster option \<Rightarrow> adapter_state
     \<Rightarrow> (error + nat list) \<times> adapter_state" where
  "getOrBuildSuggestions P conn server request trigChar triggerOnly apiVersion shouldReplace
       onDidConvert st =
     (let cache = suggestionCache st (server_id server);
          trigPoint = computeTriggerPoint request trigChar triggerOnly
      in if cacheIsValid cache trigChar trigPoint (bufferPosition request) then
           (Inr (map fst (suggestionMap (the cache))), st)
         else
           let params = createCompletionParams P request trigChar triggerOnly;
               token = fst (cancelAndRefreshCancellationToken (connection_id server)
                              (cancellationTokens st));
               (completions, tokens') =
                  doWithCancellationToken (connection_id server)
                    (\<lambda>cancellationToken ts.
                       (case params of
                          Inl e \<Rightarrow> Inl e
                        | Inr ps \<Rightarrow> completion conn ps cancellationToken, ts))
                    (cancellationTokens st);
               st1 = st\<lparr>cancellationTokens := tokens',
                        requests := (case params of
                                       Inl e \<Rightarrow> requests st
                                     | Inr ps \<Rightarrow> requests st @ [CompletionRequest ps token])\<rparr>
           in case completions of
                Inl e \<Rightarrow> (Inl e, st1)
              | Inr cs \<Rightarrow>
                  let isComplete = (case cs of
                                      CompletionNull \<Rightarrow> True
                                    | CompletionArray items \<Rightarrow> True
                                    | CompletionList inc items \<Rightarrow> \<not> inc);
                      converted = completionItemsToSuggestions P cs request apiVersion
                                    shouldReplace onDidConvert;
                      keys = [length (suggestions st1) ..< length (suggestions st1) + length converted];
                      entry = \<lparr>isIncomplete = \<not> isComplete,
                               triggerPoint = trigPoint,
                               originalBufferPoint = bufferPosition request,
                               triggerChar = trigChar,
                               suggestionMap = zip keys (map snd converted)\<rparr>
                  in (Inr keys,
                      st1\<lparr>suggestions := suggestions st1 @ map fst converted,
                          suggestionCache := (suggestionCache st1)(server_id server \<mapsto> entry)\<rparr>))"

definition resolveSuggestion ::
  "CompletionItem \<Rightarrow> Suggestion \<Rightarrow> SuggestionsRequestedEvent \<Rightarrow> CompletionItemAdjuster option
     \<Rightarrow> Suggestion" where
  "resolveSuggestion resolvedCompletionItem suggestion request onDidConvert =
     (let s1 = applyDetailsToSuggestion resolvedCompletionItem suggestion
      in case onDidConvert of None \<Rightarrow> s1 | Some f \<Rightarrow> f resolvedCompletionItem s1 request)"

text \<open>
  \<open>completeSuggestion\<close> receives a suggestion object (an address of the heap) and
  returns the same object, possibly after updating it in place.
\<close>

definition set_resolved ::
  "nat \<Rightarrow> (nat \<times> PossiblyResolvedCompletionItem) list \<Rightarrow> (nat \<times> PossiblyResolvedCompletionItem) list" where
  "set_resolved sid m = map (\<lambda>(k, v). if k = sid then (k, v\<lparr>isResolved := True\<rparr>) else (k, v)) m"

definition completeSuggestion ::
  "LanguageClientConnection \<Rightarrow> ActiveServer \<Rightarrow> nat \<Rightarrow> SuggestionsRequestedEvent
     \<Rightarrow> CompletionItemAdjuster option \<Rightarrow> adapter_state \<Rightarrow> (error + nat) \<times> adapter_state" where
  "completeSuggestion conn server suggestion request onDidConvert st =
     (case suggestionCache st (server_id server) of
        None \<Rightarrow> (Inr suggestion, st)
      | Some cache \<Rightarrow>
          (case map_of (suggestionMap cache) suggestion of
             None \<Rightarrow> (Inr suggestion, st)
           | Some possiblyResolved \<Rightarrow>
               if isResolved possiblyResolved then (Inr suggestion, st)
               else
                 let st1 = st\<lparr>requests := requests st
                               @ [ResolveRequest (completionItem_pr possiblyResolved)]\<rparr>
                 in case completionItemResolve conn (completionItem_pr possiblyResolved) of
                      Inl e \<Rightarrow> (Inl e, st1)
                    | Inr None \<Rightarrow> (Inr suggestion, st1)
                    | Inr (Some resolvedCompletionItem) \<Rightarrow>
                        (Inr suggestion,
                         st1\<lparr>suggestions := (suggestions st1)
                               [suggestion := resolveSuggestion resolvedCompletionItem
                                                (suggestions st1 ! suggestion) request onDidConvert],
                             suggestionCache := (suggestionCache st1)
                               (server_id server \<mapsto>
                                  cache\<lparr>suggestionMap :=
                                    set_resolved suggestion (suggestionMap cache)\<rparr>)\<rparr>)))"

section \<open>Diagnostics and linter messages (linter-push-v2-adapter.ts)\<close>

datatype DiagnosticSeverity =
  Error_severity | Warning_severity | Information_severity | Hint_severity

definition severity_number :: "DiagnosticSeverity \<Rightarrow> nat" where
  "severity_number s =
     (case s of Error_severity \<Rightarrow> 1 | Warning_severity \<Rightarrow> 2
              | Information_severity \<Rightarrow> 3 | Hint_severity \<Rightarrow> 4)"

datatype DiagnosticCode = CodeNumber int | CodeString string

record DiagnosticRelatedInformation =
  location_uri :: string
  location_range :: LsRange
  related_message :: string

text \<open>
  A diagnostic of the protocol. (\<open>range\<close>, \<open>severity\<close>, \<open>code\<close>, \<open>source\<close>, \<open>message\<close> and
  \<open>data\<close> carry the suffix \<open>_diag\<close>.)
\<close>

record Diagnostic =
  range_diag :: LsRange
  severity_diag :: "DiagnosticSeverity option"
  code_diag :: "DiagnosticCode option"
  codeDescription :: "string option"
  source_diag :: "string option"
  message_diag :: string
  tags :: "nat list option"
  relatedInformation :: "DiagnosticRelatedInformation list option"
  data_diag :: "string option"

record PublishDiagnosticsParams =
  uri :: string
  diagnostics :: "Diagnostic list"

text \<open>
  \<open>solutions\<close> of a linter message is either absent or the promise of the code
  actions requested for a range and a diagnostic. (\<open>key\<close> and \<open>description\<close> of a
  message carry the suffix \<open>_msg\<close>.)
\<close>

datatype solutions = CodeActionsRequested AtomRange Diagnostic

record Message =
  location_file :: string
  location_position :: AtomRange
  reference :: "(string \<times> Point) option"
  url :: "string option"
  icon :: "string option"
  excerpt :: string
  linterName :: "string option"
  severity :: string
  solutions :: "solutions option"
  key_msg :: "string option"
  description_msg :: "string option"

definition SHOULD_LOAD_SOLUTIONS :: bool where
  "SHOULD_LOAD_SOLUTIONS = False"

definition SHOULD_PRELOAD_SOLUTIONS_FOR_EACH_LINTER_MESSAGE :: bool where
  "SHOULD_PRELOAD_SOLUTIONS_FOR_EACH_LINTER_MESSAGE = False"

text \<open>A value inside a template string: \<open>undefined\<close> is rendered by its name.\<close>

definition template_opt :: "string option \<Rightarrow> string" where
  "template_opt v = (case v of None \<Rightarrow> ''undefined'' | Some s \<Rightarrow> s)"

definition code_toString :: "DiagnosticCode \<Rightarrow> string" where
  "code_toString c = (case c of CodeNumber n \<Rightarrow> number_toString n | CodeString s \<Rightarrow> s)"

text \<open>Truthiness of a diagnostic code: absent, \<open>0\<close> and the empty string are falsy.\<close>

definition code_truthy :: "DiagnosticCode option \<Rightarrow> bool" where
  "code_truthy c =
     (case c of None \<Rightarrow> False | Some (CodeNumber n) \<Rightarrow> n \<noteq> 0 | Some (CodeString s) \<Rightarrow> s \<noteq> [])"

definition getDiagnosticKey :: "Diagnostic \<Rightarrow> string" where
  "getDiagnosticKey diagnostic =
     (let rng = lsRangeToAtomRange (range_diag diagnostic);
          severity = (case severity_diag diagnostic of
                        None \<Rightarrow> []
                      | Some s \<Rightarrow> decimal (severity_number s));
          code = (case code_diag diagnostic of None \<Rightarrow> [] | Some c \<Rightarrow> code_toString c)
      in message_diag diagnostic @ '':'' @ severity @ '':'' @ code @ '':'' @ range_toString rng)"

definition updateMessageKey :: "Message \<Rightarrow> Message" where
  "updateMessageKey message =
     (let nameStr = ''$LINTER:'' @ template_opt (linterName message);
          position = location_position message;
          locationStr = ''$LOCATION:'' @ location_file message
              @ ''$'' @ number_toString (row (range_start position))
              @ ''$'' @ number_toString (column (range_start position))
              @ ''$'' @ number_toString (row (range_end position))
              @ ''$'' @ number_toString (column (range_end position));
          referenceStr = (case reference message of
                            Some (file, point) \<Rightarrow>
                              ''$REFERENCE:'' @ file @ ''$'' @ number_toString (row point)
                                @ ''$'' @ number_toString (column point)
                          | None \<Rightarrow> ''$REFERENCE:null'');
          excerptStr = ''$EXCERPT:'' @ excerpt message;
          severityStr = ''$SEVERITY:'' @ severity message;
          iconStr = (case icon message of
                       Some i \<Rightarrow> if i \<noteq> [] then ''$ICON:'' @ i else ''$ICON:null''
                     | None \<Rightarrow> ''$ICON:null'');
          urlStr = (case url message of
                      Some u \<Rightarrow> if u \<noteq> [] then ''$URL:'' @ u else ''$URL:null''
                    | None \<Rightarrow> ''$URL:null'');
          descriptionStr = (case description_msg message of
                              Some d \<Rightarrow> ''$DESCRIPTION:'' @ d
                            | None \<Rightarrow> ''$DESCRIPTION:null'')
      in message\<lparr>key_msg := Some (nameStr @ locationStr @ referenceStr @ excerptStr @ severityStr
                                @ iconStr @ urlStr @ descriptionStr)\<rparr>)"

text \<open>
  \<open>getMessageKey\<close> stores the key in the message when it has none, and returns the
  key together with the message as it then is.
\<close>

definition getMessageKey :: "Message \<Rightarrow> string \<times> Message" where
  "getMessageKey message =
     (let m = (case key_msg message of None \<Rightarrow> updateMessageKey message | Some k \<Rightarrow> message)
      in (template_opt (key_msg m), m))"

definition lsSeverityToV2MessageSeverity :: "DiagnosticSeverity \<Rightarrow> string" where
  "lsSeverityToV2MessageSeverity s =
     (case s of Error_severity \<Rightarrow> ''error'' | Warning_severity \<Rightarrow> ''warning''
              | Information_severity \<Rightarrow> ''info'' | Hint_severity \<Rightarrow> ''info'')"

definition iconForLSSeverity :: "DiagnosticSeverity \<Rightarrow> string option" where
  "iconForLSSeverity s =
     (case s of Error_severity \<Rightarrow> Some ''stop'' | Warning_severity \<Rightarrow> Some ''warning''
              | Information_severity \<Rightarrow> Some ''info'' | Hint_severity \<Rightarrow> Some ''light-bulb'')"

definition relatedInformationToReference ::
  "platform \<Rightarrow> DiagnosticRelatedInformation list option \<Rightarrow> error + (string \<times> Point) option" where
  "relatedInformationToReference P relatedInfo =
     (case relatedInfo of
        None \<Rightarrow> Inr None
      | Some [] \<Rightarrow> Inr None
      | Some (first # _) \<Rightarrow>
          (case uriToPath P (location_uri first) of
             Inl e \<Rightarrow> Inl e
           | Inr file \<Rightarrow>
               Inr (Some (file, range_start (lsRangeToAtomRange (location_range first))))))"

definition lsDiagnosticToV2Message :: "platform \<Rightarrow> string \<Rightarrow> Diagnostic \<Rightarrow> error + Message" where
  "lsDiagnosticToV2Message P path diagnostic =
     (case relatedInformationToReference P (relatedInformation diagnostic) of
        Inl e \<Rightarrow> Inl e
      | Inr ref \<Rightarrow>
          Inr \<lparr>location_file = path,
               location_position = lsRangeToAtomRange (range_diag diagnostic),
               reference = ref,
               url = codeDescription diagnostic,
               icon = iconForLSSeverity (case severity_diag diagnostic of
                                           None \<Rightarrow> Error_severity | Some s \<Rightarrow> s),
               excerpt = message_diag diagnostic,
               linterName = source_diag diagnostic,
               severity = lsSeverityToV2MessageSeverity
                            (case severity_diag diagnostic of None \<Rightarrow> Error_severity | Some s \<Rightarrow> s),
               solutions = None,
               key_msg = None,
               description_msg = None\<rparr>)"

section \<open>The intentions index (intentions-list-adapter.ts)\<close>

text \<open>
  The maps of an \<open>EditorIntentionsList\<close> are keyed by range objects and message
  objects. Every linter message is a new object with a range object of its own,
  so each \<open>set\<close> adds an entry: the maps are lists of entries in insertion order.
  The callback of a bundle recaptures the diagnostics of the bundle's path.
\<close>

record MessageBundle =
  bundle_message :: Message
  bundle_code :: string
  bundle_path :: string

record EditorIntentionsList =
  linterMessageBundleByRange :: "(AtomRange \<times> MessageBundle) list"
  diagnosticByLinterMessage :: "(Message \<times> Diagnostic) list"
  diagnosticByRange :: "(AtomRange \<times> Diagnostic) list"

definition new_EditorIntentionsList :: EditorIntentionsList where
  "new_EditorIntentionsList =
     \<lparr>linterMessageBundleByRange = [], diagnosticByLinterMessage = [], diagnosticByRange = []\<rparr>"

definition intentions_add ::
  "AtomRange \<Rightarrow> MessageBundle \<Rightarrow> Diagnostic \<Rightarrow> EditorIntentionsList \<Rightarrow> EditorIntentionsList" where
  "intentions_add rng bundle diag l =
     l\<lparr>linterMessageBundleByRange := linterMessageBundleByRange l @ [(rng, bundle)],
       diagnosticByLinterMessage := diagnosticByLinterMessage l @ [(bundle_message bundle, diag)],
       diagnosticByRange := diagnosticByRange l @ [(rng, diag)]\<rparr>"

text \<open>
  The workspace lists the open text editors, in pane order, each with its path.
  \<open>listsByEditor\<close> maps an editor to its intentions list.
\<close>

type_synonym editor = nat
type_synonym workspace = "(editor \<times> string option) list"
type_synonym listsByEditor = "editor \<Rightarrow> EditorIntentionsList option"

definition findAllTextEditorsForPath :: "workspace \<Rightarrow> string \<Rightarrow> editor list" where
  "findAllTextEditorsForPath ws path = map fst (filter (\<lambda>(e, p). p = Some path) ws)"

definition findFirstTextEditorForPath :: "workspace \<Rightarrow> string \<Rightarrow> editor option" where
  "findFirstTextEditorForPath ws path =
     (case findAllTextEditorsForPath ws path of [] \<Rightarrow> None | e # _ \<Rightarrow> Some e)"

definition clearLinterIntentions :: "editor \<Rightarrow> listsByEditor \<Rightarrow> listsByEditor" where
  "clearLinterIntentions e ixs =
     (case ixs e of None \<Rightarrow> ixs | Some l \<Rightarrow> ixs(e \<mapsto> new_EditorIntentionsList))"

definition add_for_editor ::
  "AtomRange \<Rightarrow> MessageBundle \<Rightarrow> Diagnostic \<Rightarrow> editor \<Rightarrow> listsByEditor \<Rightarrow> listsByEditor" where
  "add_for_editor rng bundle diag e ixs =
     (let intentionsList = (case ixs e of None \<Rightarrow> new_EditorIntentionsList | Some l \<Rightarrow> l)
      in ixs(e \<mapsto> intentions_add rng bundle diag intentionsList))"

definition onLinterMessageAdded ::
  "workspace \<Rightarrow> string \<Rightarrow> Message \<Rightarrow> string \<Rightarrow> Diagnostic \<Rightarrow> listsByEditor \<Rightarrow> listsByEditor" where
  "onLinterMessageAdded ws path message code diag ixs =
     (let rng = location_position message;
          bundle = \<lparr>bundle_message = message, bundle_code = code, bundle_path = path\<rparr>
      in fold (add_for_editor rng bundle diag) (findAllTextEditorsForPath ws path) ixs)"

section \<open>Capturing diagnostics (linter-push-v2-adapter.ts)\<close>

text \<open>
  The delegate of the adapter: the suppression predicate and the optional message
  transformer, which either returns a new message or nothing.
\<close>

record LinterDelegate =
  shouldIgnoreMessage :: "Diagnostic \<Rightarrow> editor option \<Rightarrow> AtomRange \<Rightarrow> bool"
  transformMessage :: "(Message \<Rightarrow> Diagnostic \<Rightarrow> editor option \<Rightarrow> Message option) option"

text \<open>
  The state of the adapter. \<open>published\<close> is the trace of \<open>setMessages\<close> calls on the
  attached indie delegates; \<open>intentionsManager\<close> is absent or the index it keeps.
\<close>

record linter_state =
  diagnosticMap :: "string \<Rightarrow> Message list option"
  lsDiagnosticMap :: "string \<Rightarrow> (string \<times> Diagnostic) list option"
  indies :: "nat list"
  published :: "(nat \<times> string \<times> Message list) list"
  lastDiagnosticsParamsByEditor :: "editor \<Rightarrow> PublishDiagnosticsParams option"
  editorsWithSaveCallbacks :: "editor set"
  intentionsManager :: "listsByEditor option"

text \<open>\<open>Map.prototype.set\<close> on a map kept as a list of entries in insertion order.\<close>

fun map_set :: "'k \<Rightarrow> 'v \<Rightarrow> ('k \<times> 'v) list \<Rightarrow> ('k \<times> 'v) list" where
  "map_set k v [] = [(k, v)]"
| "map_set k v ((k', v') # m) = (if k' = k then (k, v) # m else (k', v') # map_set k v m)"

definition addIntentionsForLinterMessage ::
  "workspace \<Rightarrow> string \<Rightarrow> Message \<Rightarrow> string \<Rightarrow> Diagnostic \<Rightarrow> linter_state \<Rightarrow> linter_state" where
  "addIntentionsForLinterMessage ws path message code diag st =
     (case intentionsManager st of
        None \<Rightarrow> st
      | Some ixs \<Rightarrow>
          st\<lparr>intentionsManager := Some (onLinterMessageAdded ws path message code diag ixs)\<rparr>)"

text \<open>
  The test of \<open>transformOrIgnoreDiagnosticMessage\<close> that drops a diagnostic: a
  delegate is present and its \<open>shouldIgnoreMessage\<close> answers true for the
  diagnostic, the first editor open on the path and the diagnostic's range.
\<close>

definition suppressed :: "LinterDelegate option \<Rightarrow> workspace \<Rightarrow> string \<Rightarrow> Diagnostic \<Rightarrow> bool" where
  "suppressed delegate ws path diag =
     (case delegate of
        None \<Rightarrow> False
      | Some d \<Rightarrow> shouldIgnoreMessage d diag (findFirstTextEditorForPath ws path)
                   (lsRangeToAtomRange (range_diag diag)))"

definition transformOrIgnoreDiagnosticMessage ::
  "platform \<Rightarrow> LinterDelegate option \<Rightarrow> workspace \<Rightarrow> string \<Rightarrow> Diagnostic \<Rightarrow> linter_state
     \<Rightarrow> error + (Message option \<times> linter_state)" where
  "transformOrIgnoreDiagnosticMessage P delegate ws path diag st =
     (let rng = lsRangeToAtomRange (range_diag diag);
          editor = findFirstTextEditorForPath ws path
      in if suppressed delegate ws path diag then Inr (None, st)
         else
           let code = (if code_truthy (code_diag diag)
                       then Some (code_toString (the (code_diag diag))) else None)
           in case lsDiagnosticToV2Message P path diag of
                Inl e \<Rightarrow> Inl e
              | Inr created \<Rightarrow>
                  let preloaded =
                        (if severity_diag diag \<noteq> None \<and> editor \<noteq> None
                            \<and> SHOULD_PRELOAD_SOLUTIONS_FOR_EACH_LINTER_MESSAGE
                         then created\<lparr>solutions := Some (CodeActionsRequested rng diag)\<rparr>
                         else created);
                      linterMessage =
                        (case delegate of
                           None \<Rightarrow> preloaded
                         | Some d \<Rightarrow>
                             (case transformMessage d of
                                None \<Rightarrow> preloaded
                              | Some f \<Rightarrow> (case f preloaded diag editor of
                                             None \<Rightarrow> preloaded
                                           | Some m \<Rightarrow> m)))
                  in Inr (Some linterMessage,
                          (case code of
                             Some c \<Rightarrow> addIntentionsForLinterMessage ws path linterMessage c diag st
                           | None \<Rightarrow> st)))"

text \<open>
  A linter message is one object. The intentions index holds it from
  \<open>addIntentionsForLinterMessage\<close> on, so when \<open>getMessageKey\<close> stores the key into
  the message, the entries of the index carry the key as well. The lists of the
  editors open on the path are cleared before the batch is walked; the entries
  that hold the object are those of these lists whose message is equal to it.
\<close>

definition keyed_entries :: "Message \<Rightarrow> Message \<Rightarrow> EditorIntentionsList \<Rightarrow> EditorIntentionsList" where
  "keyed_entries message keyed l =
     l\<lparr>linterMessageBundleByRange :=
         map (\<lambda>(r, bundle). (r, if bundle_message bundle = message
                                 then bundle\<lparr>bundle_message := keyed\<rparr> else bundle))
           (linterMessageBundleByRange l),
       diagnosticByLinterMessage :=
         map (\<lambda>(m, d). (if m = message then keyed else m, d)) (diagnosticByLinterMessage l)\<rparr>"

definition key_editor :: "Message \<Rightarrow> Message \<Rightarrow> editor \<Rightarrow> listsByEditor \<Rightarrow> listsByEditor" where
  "key_editor message keyed e ixs = ixs(e := map_option (keyed_entries message keyed) (ixs e))"

definition share_key :: "workspace \<Rightarrow> string \<Rightarrow> Message \<Rightarrow> Message \<Rightarrow> linter_state \<Rightarrow> linter_state" where
  "share_key ws path message keyed st =
     (case intentionsManager st of
        None \<Rightarrow> st
      | Some ixs \<Rightarrow>
          st\<lparr>intentionsManager :=
               Some (fold (key_editor message keyed) (findAllTextEditorsForPath ws path) ixs)\<rparr>)"

text \<open>The local variables of \<open>captureDiagnostics\<close> while it walks the batch.\<close>

record capture_locals =
  codeMap :: "(string \<times> Diagnostic) list"
  diagnosticMap_local :: "(string \<times> Message) list"
  messages :: "Message list"
  retainedDiagnostics :: "Diagnostic list"
  codeActionRange :: "AtomRange option"

definition initial_locals :: capture_locals where
  "initial_locals =
     \<lparr>codeMap = [], diagnosticMap_local = [], messages = [], retainedDiagnostics = [],
      codeActionRange = None\<rparr>"

fun capture_loop ::
  "platform \<Rightarrow> LinterDelegate option \<Rightarrow> workspace \<Rightarrow> string \<Rightarrow> Diagnostic list
     \<Rightarrow> capture_locals \<Rightarrow> linter_state \<Rightarrow> error + (capture_locals \<times> linter_state)" where
  "capture_loop P delegate ws path [] loc st = Inr (loc, st)"
| "capture_loop P delegate ws path (diagnostic # rest) loc st =
     (case transformOrIgnoreDiagnosticMessage P delegate ws path diagnostic st of
        Inl e \<Rightarrow> Inl e
      | Inr (None, st1) \<Rightarrow> capture_loop P delegate ws path rest loc st1
      | Inr (Some linterMessage, st1) \<Rightarrow>
          let rng = location_position linterMessage;
              (messageKey, keyed) = getMessageKey linterMessage;
              loc1 = loc\<lparr>codeActionRange :=
                            (case codeActionRange loc of
                               None \<Rightarrow> Some rng
                             | Some r \<Rightarrow> Some (range_union r rng)),
                         retainedDiagnostics := retainedDiagnostics loc @ [diagnostic],
                         diagnosticMap_local :=
                            map_set (getDiagnosticKey diagnostic) keyed (diagnosticMap_local loc),
                         codeMap := map_set messageKey diagnostic (codeMap loc),
                         messages := messages loc @ [keyed]\<rparr>
          in capture_loop P delegate ws path rest loc1
               (share_key ws path linterMessage keyed st1))"

definition prepare_editor :: "PublishDiagnosticsParams \<Rightarrow> editor \<Rightarrow> linter_state \<Rightarrow> linter_state" where
  "prepare_editor params e st =
     st\<lparr>lastDiagnosticsParamsByEditor := (lastDiagnosticsParamsByEditor st)(e \<mapsto> params),
        editorsWithSaveCallbacks := insert e (editorsWithSaveCallbacks st),
        intentionsManager := map_option (clearLinterIntentions e) (intentionsManager st)\<rparr>"

definition captureDiagnostics ::
  "platform \<Rightarrow> LinterDelegate option \<Rightarrow> workspace \<Rightarrow> PublishDiagnosticsParams \<Rightarrow> linter_state
     \<Rightarrow> error + (capture_locals \<times> linter_state)" where
  "captureDiagnostics P delegate ws params st =
     (case uriToPath P (uri params) of
        Inl e \<Rightarrow> Inl e
      | Inr path \<Rightarrow>
          let textEditors = findAllTextEditorsForPath ws path;
              st1 = fold (prepare_editor params) textEditors st
          in case capture_loop P delegate ws path (diagnostics params) initial_locals st1 of
               Inl e \<Rightarrow> Inl e
             | Inr (loc, st2) \<Rightarrow>
                 Inr (loc,
                      st2\<lparr>diagnosticMap := (diagnosticMap st2)(path \<mapsto> messages loc),
                          lsDiagnosticMap := (lsDiagnosticMap st2)(path \<mapsto> codeMap loc),
                          published := published st2
                             @ map (\<lambda>i. (i, path, messages loc)) (indies st2)\<rparr>))"

text \<open>
  What the index holds for an editor, as \<open>getDiagnosticsForBufferPosition\<close> walks
  it: the diagnostics of \<open>diagnosticByRange\<close> in insertion order (none when the
  editor has no list).
\<close>

definition registered_diagnostics :: "listsByEditor \<Rightarrow> editor \<Rightarrow> Diagnostic list" where
  "registered_diagnostics ixs e =
     (case ixs e of None \<Rightarrow> [] | Some l \<Rightarrow> map snd (diagnosticByRange l))"

section \<open>A model of the JavaScript platform functions\<close>

text \<open>
  Modelled from the URL Standard and the ECMAScript specification: the functions
  of the platform that \<open>Convert\<close> calls. A \<open>string\<close> is the UTF-8 encoding of a
  JavaScript string without lone surrogates, one \<open>char\<close> per byte; on such strings
  \<open>encodeURI\<close> and \<open>encodeURIComponent\<close> do not throw.
\<close>

subsection \<open>Percent-encoding\<close>

definition hex_digit :: "nat \<Rightarrow> char" where
  "hex_digit n = ''0123456789ABCDEF'' ! n"

definition percent_byte :: "char \<Rightarrow> string" where
  "percent_byte c = [CHR ''%'', hex_digit (of_char c div 16), hex_digit (of_char c mod 16)]"

definition uriUnescaped :: "char \<Rightarrow> bool" where
  "uriUnescaped c =
     (c \<in> set ''abcdefghijklmnopqrstuvwxyzABCDEFGHIJKLMNOPQRSTUVWXYZ0123456789-_.!~*()''
      \<or> c = CHR 0x27)"

definition uriReserved :: "char \<Rightarrow> bool" where
  "uriReserved c = (c \<in> set '';/?:@&=+$,'')"

definition js_encodeURI :: "string \<Rightarrow> error + string" where
  "js_encodeURI s =
     Inr (concat (map (\<lambda>c. if uriUnescaped c \<or> uriReserved c \<or> c = CHR ''#'' then [c]
                              else percent_byte c) s))"

definition js_encodeURIComponent :: "string \<Rightarrow> error + string" where
  "js_encodeURIComponent s =
     Inr (concat (map (\<lambda>c. if uriUnescaped c then [c] else percent_byte c) s))"

subsection \<open>Percent-decoding\<close>

definition hex_val :: "char \<Rightarrow> nat option" where
  "hex_val c =
     (let n = (of_char c :: nat)
      in if 48 \<le> n \<and> n \<le> 57 then Some (n - 48)
         else if 65 \<le> n \<and> n \<le> 70 then Some (n - 55)
         else if 97 \<le> n \<and> n \<le> 102 then Some (n - 87)
         else None)"

text \<open>
  The units of an encoded string: a character that stands for itself, or the byte
  of an escape \<open>%XX\<close>. A \<open>%\<close> that is not followed by two hexadecimal digits makes
  the decoder throw.
\<close>

datatype unit_tok = Lit char | Esc nat

fun tokenize :: "string \<Rightarrow> unit_tok list option" where
  "tokenize [] = Some []"
| "tokenize [c] = (if c = CHR ''%'' then None else Some [Lit c])"
| "tokenize [c, d] =
     (if c = CHR ''%'' then None else map_option (\<lambda>ts. Lit c # ts) (tokenize [d]))"
| "tokenize (c # h1 # h2 # rest) =
     (if c = CHR ''%'' then
        (case (hex_val h1, hex_val h2) of
           (Some a, Some b) \<Rightarrow> map_option (\<lambda>ts. Esc (16 * a + b) # ts) (tokenize rest)
         | _ \<Rightarrow> None)
      else map_option (\<lambda>ts. Lit c # ts) (tokenize (h1 # h2 # rest)))"

definition continuation :: "nat \<Rightarrow> bool" where
  "continuation b = (0x80 \<le> b \<and> b \<le> 0xBF)"

text \<open>The well-formed byte sequences of UTF-8, by the first byte.\<close>

definition valid2 :: "nat \<Rightarrow> nat \<Rightarrow> bool" where
  "valid2 b b1 = (0xC2 \<le> b \<and> b \<le> 0xDF \<and> continuation b1)"

definition valid3 :: "nat \<Rightarrow> nat \<Rightarrow> nat \<Rightarrow> bool" where
  "valid3 b b1 b2 =
     (0xE0 \<le> b \<and> b \<le> 0xEF \<and> continuation b1 \<and> continuation b2
      \<and> (b = 0xE0 \<longrightarrow> 0xA0 \<le> b1) \<and> (b = 0xED \<longrightarrow> b1 \<le> 0x9F))"

definition valid4 :: "nat \<Rightarrow> nat \<Rightarrow> nat \<Rightarrow> nat \<Rightarrow> bool" where
  "valid4 b b1 b2 b3 =
     (0xF0 \<le> b \<and> b \<le> 0xF4 \<and> continuation b1 \<and> continuation b2 \<and> continuation b3
      \<and> (b = 0xF0 \<longrightarrow> 0x90 \<le> b1) \<and> (b = 0xF4 \<longrightarrow> b1 \<le> 0x8F))"

text \<open>
  Decoding the units: an escaped byte below \<open>0x80\<close> is a character; an escaped
  byte from \<open>0x80\<close> on must start a well-formed UTF-8 sequence made of escapes
  only, and the decoded character is that sequence.
\<close>

fun decode_units :: "unit_tok list \<Rightarrow> string option" where
  "decode_units [] = Some []"
| "decode_units (Lit c # ts) = map_option (\<lambda>r. c # r) (decode_units ts)"
| "decode_units (Esc b # ts) =
     (if b < 0x80 then map_option (\<lambda>r. char_of b # r) (decode_units ts)
      else if b < 0xE0 then
        (case ts of
           Esc b1 # rest \<Rightarrow>
             if valid2 b b1
             then map_option (\<lambda>r. char_of b # char_of b1 # r) (decode_units rest)
             else None
         | _ \<Rightarrow> None)
      else if b < 0xF0 then
        (case ts of
           Esc b1 # Esc b2 # rest \<Rightarrow>
             if valid3 b b1 b2
             then map_option (\<lambda>r. char_of b # char_of b1 # char_of b2 # r) (decode_units rest)
             else None
         | _ \<Rightarrow> None)
      else
        (case ts of
           Esc b1 # Esc b2 # Esc b3 # rest \<Rightarrow>
             if valid4 b b1 b2 b3
             then map_option (\<lambda>r. char_of b # char_of b1 # char_of b2 # char_of b3 # r)
                    (decode_units rest)
             else None
         | _ \<Rightarrow> None))"

definition js_decodeURIComponent :: "string \<Rightarrow> error + string" where
  "js_decodeURIComponent s =
     (case tokenize s of
        None \<Rightarrow> Inl (URIError ''URI malformed'')
      | Some ts \<Rightarrow>
          (case decode_units ts of
             None \<Rightarrow> Inl (URIError ''URI malformed'')
           | Some r \<Rightarrow> Inr r))"

text \<open>Well-formed UTF-8: what the bytes of a JavaScript string without lone surrogates are.\<close>

fun utf8 :: "string \<Rightarrow> bool" where
  "utf8 [] = True"
| "utf8 (c # cs) =
     (let b = (of_char c :: nat)
      in if b < 0x80 then utf8 cs
         else if b < 0xE0 then
           (case cs of
              c1 # rest \<Rightarrow> valid2 b (of_char c1) \<and> utf8 rest
            | _ \<Rightarrow> False)
         else if b < 0xF0 then
           (case cs of
              c1 # c2 # rest \<Rightarrow> valid3 b (of_char c1) (of_char c2) \<and> utf8 rest
            | _ \<Rightarrow> False)
         else
           (case cs of
              c1 # c2 # c3 # rest \<Rightarrow>
                valid4 b (of_char c1) (of_char c2) (of_char c3) \<and> utf8 rest
            | _ \<Rightarrow> False))"

subsection \<open>The URL parser, for the base \<open>file://\<close>\<close>

text \<open>
  \<open>new URL(input, "file://")\<close>. The parser strips leading and trailing C0 controls
  and spaces, removes tabs and newlines, and reads a scheme if there is one. An
  input without a scheme, or with the scheme \<open>file\<close>, goes through the file states
  and the path state, which are modelled in full; the host parser, which they
  call for a non-empty host, is the parameter \<open>host_ok\<close> (whether it succeeds).
  For any other scheme the parameter \<open>other\<close> gives the path name, or \<open>None\<close> when
  the parser fails.
\<close>

definition c0_or_space :: "char \<Rightarrow> bool" where
  "c0_or_space c = ((of_char c :: nat) \<le> 0x20)"

definition tab_or_newline :: "char \<Rightarrow> bool" where
  "tab_or_newline c = (c = CHR 0x09 \<or> c = CHR 0x0A \<or> c = CHR 0x0D)"

definition preprocess :: "string \<Rightarrow> string" where
  "preprocess input =
     filter (\<lambda>c. \<not> tab_or_newline c)
       (rev (dropWhile c0_or_space (rev (dropWhile c0_or_space input))))"

definition ascii_alpha :: "char \<Rightarrow> bool" where
  "ascii_alpha c =
     (let n = (of_char c :: nat) in (65 \<le> n \<and> n \<le> 90) \<or> (97 \<le> n \<and> n \<le> 122))"

definition ascii_digit :: "char \<Rightarrow> bool" where
  "ascii_digit c = (let n = (of_char c :: nat) in 48 \<le> n \<and> n \<le> 57)"

definition ascii_lower :: "char \<Rightarrow> char" where
  "ascii_lower c =
     (let n = (of_char c :: nat) in if 65 \<le> n \<and> n \<le> 90 then char_of (n + 32) else c)"

definition scheme_char :: "char \<Rightarrow> bool" where
  "scheme_char c = (ascii_alpha c \<or> ascii_digit c \<or> c = CHR ''+'' \<or> c = CHR ''-'' \<or> c = CHR ''.'')"

definition scheme_of :: "string \<Rightarrow> (string \<times> string) option" where
  "scheme_of s =
     (case s of
        [] \<Rightarrow> None
      | c # cs \<Rightarrow>
          if ascii_alpha c then
            (case dropWhile scheme_char s of
               d # rest \<Rightarrow> if d = CHR '':'' then Some (map ascii_lower (takeWhile scheme_char s), rest)
                           else None
             | [] \<Rightarrow> None)
          else None)"

definition windows_drive_letter :: "string \<Rightarrow> bool" where
  "windows_drive_letter s =
     (case s of [a, b] \<Rightarrow> ascii_alpha a \<and> (b = CHR '':'' \<or> b = CHR ''|'') | _ \<Rightarrow> False)"

definition normalized_windows_drive_letter :: "string \<Rightarrow> bool" where
  "normalized_windows_drive_letter s =
     (case s of [a, b] \<Rightarrow> ascii_alpha a \<and> b = CHR '':'' | _ \<Rightarrow> False)"

definition single_dot :: "string \<Rightarrow> bool" where
  "single_dot s = (map ascii_lower s \<in> {''.'', ''%2e''})"

definition double_dot :: "string \<Rightarrow> bool" where
  "double_dot s = (map ascii_lower s \<in> {''..'', ''.%2e'', ''%2e.'', ''%2e%2e''})"

definition shorten :: "string list \<Rightarrow> string list" where
  "shorten path =
     (case path of
        [] \<Rightarrow> []
      | [s] \<Rightarrow> if normalized_windows_drive_letter s then path else []
      | _ \<Rightarrow> butlast path)"

definition path_percent_encode_set :: "char \<Rightarrow> bool" where
  "path_percent_encode_set c =
     ((of_char c :: nat) \<le> 0x1F \<or> (of_char c :: nat) > 0x7E
      \<or> c \<in> set '' #<>?^`{}'' \<or> c = CHR 0x22)"

definition path_delimiter :: "char \<Rightarrow> bool" where
  "path_delimiter c = (c = CHR ''/'' \<or> c = CHR 0x5C \<or> c = CHR ''?'' \<or> c = CHR ''#'')"

text \<open>
  Closing a path segment in the path state; \<open>final\<close> says that the segment is not
  followed by a slash.
\<close>

definition close_segment :: "string \<Rightarrow> string list \<Rightarrow> bool \<Rightarrow> string list" where
  "close_segment buffer path final =
     (if double_dot buffer then (if final then shorten path @ [[]] else shorten path)
      else if single_dot buffer then (if final then path @ [[]] else path)
      else path @ [if path = [] \<and> windows_drive_letter buffer then [hd buffer, CHR '':''] else buffer])"

fun path_state :: "string \<Rightarrow> string \<Rightarrow> string list \<Rightarrow> string list" where
  "path_state [] buffer path = close_segment buffer path True"
| "path_state (c # cs) buffer path =
     (if c = CHR ''/'' \<or> c = CHR 0x5C then path_state cs [] (close_segment buffer path False)
      else if c = CHR ''?'' \<or> c = CHR ''#'' then close_segment buffer path True
      else path_state cs
             (buffer @ (if path_percent_encode_set c then percent_byte c else [c])) path)"

definition path_start_state :: "string \<Rightarrow> string list" where
  "path_start_state s =
     (case s of
        c # cs \<Rightarrow> if c = CHR ''/'' \<or> c = CHR 0x5C then path_state cs [] [] else path_state s [] []
      | [] \<Rightarrow> path_state [] [] [])"

definition file_host_state :: "(string \<Rightarrow> bool) \<Rightarrow> string \<Rightarrow> string list option" where
  "file_host_state host_ok s =
     (let buffer = takeWhile (\<lambda>c. \<not> path_delimiter c) s;
          remaining = dropWhile (\<lambda>c. \<not> path_delimiter c) s
      in if windows_drive_letter buffer then Some (path_state remaining buffer [])
         else if buffer = [] then Some (path_start_state remaining)
         else if host_ok buffer then Some (path_start_state remaining)
         else None)"

definition file_slash_state :: "(string \<Rightarrow> bool) \<Rightarrow> string \<Rightarrow> string list option" where
  "file_slash_state host_ok s =
     (case s of
        c # cs \<Rightarrow> if c = CHR ''/'' \<or> c = CHR 0x5C then file_host_state host_ok cs
                   else Some (path_state s [] [])
      | [] \<Rightarrow> Some (path_state [] [] []))"

text \<open>
  The file state. The base URL \<open>file://\<close> has the empty host and the path of one
  empty segment, which an input with a path replaces (it is shortened away, or
  dropped before a drive letter).
\<close>

definition file_state :: "(string \<Rightarrow> bool) \<Rightarrow> string \<Rightarrow> string list option" where
  "file_state host_ok s =
     (case s of
        [] \<Rightarrow> Some [[]]
      | c # cs \<Rightarrow>
          if c = CHR ''/'' \<or> c = CHR 0x5C then file_slash_state host_ok cs
          else if c = CHR ''?'' \<or> c = CHR ''#'' then Some [[]]
          else Some (path_state s [] []))"

definition serialize_path :: "string list \<Rightarrow> string" where
  "serialize_path path = concat (map (\<lambda>segment. CHR ''/'' # segment) path)"

definition whatwg_url_parse ::
  "(string \<Rightarrow> bool) \<Rightarrow> (string \<Rightarrow> string \<Rightarrow> string option) \<Rightarrow> string \<Rightarrow> url option" where
  "whatwg_url_parse host_ok other input =
     (let s = preprocess input
      in case scheme_of s of
           Some (scheme, rest) \<Rightarrow>
             if scheme = ''file''
             then map_option (\<lambda>path. URL ''file:'' (serialize_path path)) (file_state host_ok rest)
             else map_option (\<lambda>pathname. URL (scheme @ '':'') pathname) (other scheme rest)
         | None \<Rightarrow> map_option (\<lambda>path. URL ''file:'' (serialize_path path)) (file_state host_ok s))"

text \<open>The platform, on a system that is or is not Windows.\<close>

definition js_platform ::
  "(string \<Rightarrow> bool) \<Rightarrow> (string \<Rightarrow> string \<Rightarrow> string option) \<Rightarrow> bool
     \<Rightarrow> (string \<Rightarrow> string \<Rightarrow> int) \<Rightarrow> platform" where
  "js_platform host_ok other isWin32 compare =
     \<lparr>url_parse = whatwg_url_parse host_ok other,
      encodeURI = js_encodeURI,
      encodeURIComponent = js_encodeURIComponent,
      decodeURIComponent = js_decodeURIComponent,
      win32 = isWin32,
      localeCompare = compare\<rparr>"

subsection \<open>The segments of a path\<close>

text \<open>The pieces of a string between its slashes, in order.\<close>

fun split_acc :: "string \<Rightarrow> string \<Rightarrow> string list" where
  "split_acc segment [] = [segment]"
| "split_acc segment (c # cs) =
     (if c = CHR ''/'' then segment # split_acc [] cs else split_acc (segment @ [c]) cs)"

definition path_segments :: "string \<Rightarrow> string list" where
  "path_segments p = split_acc [] p"

subsection \<open>The encoding of a path character by character\<close>

text \<open>
  What \<open>pathToUri\<close> makes of one character on this platform: \<open>encodeURI\<close> keeps the
  unescaped and the reserved characters and \<open>#\<close>, and the replacement that follows
  escapes \<open>#\<close> and \<open>?\<close>. \<open>tok1\<close> is the unit that the decoder reads back from it, and
  \<open>ordinary\<close> says that the path state copies a character into the segment.
\<close>

definition kept :: "char \<Rightarrow> bool" where
  "kept c = (uriUnescaped c \<or> (uriReserved c \<and> c \<noteq> CHR ''?''))"

definition enc1 :: "char \<Rightarrow> string" where
  "enc1 c = (if kept c then [c] else percent_byte c)"

definition tok1 :: "char \<Rightarrow> unit_tok" where
  "tok1 c = (if kept c then Lit c else Esc (of_char c))"

definition ordinary :: "char \<Rightarrow> bool" where
  "ordinary c = (\<not> path_delimiter c \<and> \<not> path_percent_encode_set c \<and> \<not> c0_or_space c
                  \<and> c \<noteq> CHR ''|'')"

section \<open>Applying workspace edits (apply-edit-adapter.ts)\<close>

text \<open>
  The source file holds the adapter twice; the model follows the first copy, in
  which \<open>apply\<close> takes the workspace edit alone and \<open>applyEdits\<close> and \<open>apply\<close> are
  the lines 53 to 86 and 92 to 134.
\<close>

subsection \<open>Text buffers and their undo history\<close>








subsection \<open>The editor and the file system\<close>





subsection \<open>\<open>applyEdits\<close>\<close>




subsection \<open>Workspace edits and resource operations\<close>










subsection \<open>\<open>apply\<close>\<close>












subsection \<open>What the checkpoints of a run keep\<close>






section \<open>Example data\<close>

text \<open>
  Concrete inputs on which the theorems below are instantiated. The example
  platform parses every string as a \<open>file:\<close> URL whose path is the string and
  leaves strings unencoded.
\<close>

definition demo_platform :: platform where
  "demo_platform =
     \<lparr>url_parse = (\<lambda>s. Some (URL ''file:'' s)),
      encodeURI = Inr,
      encodeURIComponent = Inr,
      decodeURIComponent = Inr,
      win32 = False,
      localeCompare = (\<lambda>a b. 0)\<rparr>"

definition demo_item :: CompletionItem where
  "demo_item =
     \<lparr>label = ''forEach'', kind = Some 2, detail = None, documentation = None,
      sortText = None, insertText = None, insertTextFormat = None, textEdit = None,
      additionalTextEdits = None\<rparr>"

definition demo_resolved_item :: CompletionItem where
  "demo_resolved_item =
     demo_item\<lparr>detail := Some ''(method) forEach(): void'',
               documentation := Some (MarkupContent ''markdown'' ''Calls a function for each element.''),
               insertText := Some ''somethingElse''\<rparr>"

definition demo_request :: SuggestionsRequestedEvent where
  "demo_request =
     \<lparr>bufferPosition = Point 3 10, prefix = ''foo'', activatedManually = False,
      editorPath = Some ''/proj/src/a.ts'', getTextInBufferRange = (\<lambda>r. '''')\<rparr>"

definition demo_server :: ActiveServer where
  "demo_server = \<lparr>server_id = 1, connection_id = 1\<rparr>"

definition demo_connection :: "error + CompletionItem option \<Rightarrow> LanguageClientConnection" where
  "demo_connection answer =
     \<lparr>completion = (\<lambda>ps token. Inr (CompletionList True [demo_item])),
      completionItemResolve = (\<lambda>item. answer)\<rparr>"

definition demo_empty_adapter :: adapter_state where
  "demo_empty_adapter =
     \<lparr>suggestionCache = (\<lambda>_. None), cancellationTokens = empty_store, suggestions = [],
      requests = []\<rparr>"

definition demo_cached_adapter :: adapter_state where
  "demo_cached_adapter =
     \<lparr>suggestionCache = (\<lambda>_. None)(1 \<mapsto>
        \<lparr>isIncomplete = False, triggerPoint = Point 3 7, originalBufferPoint = Point 3 9,
         triggerChar = [], suggestionMap = [(0, \<lparr>completionItem_pr = demo_item, isResolved = False\<rparr>)]\<rparr>),
      cancellationTokens = empty_store,
      suggestions = [completionItemToSuggestion demo_item empty_suggestion demo_request 5.1 False None],
      requests = []\<rparr>"

text \<open>
  The platform model with a host parser that accepts every host and, for a
  scheme other than \<open>file\<close>, the rest of the input as path name; not Windows.
\<close>

definition demo_js :: platform where
  "demo_js = js_platform (\<lambda>host. True) (\<lambda>scheme rest. Some rest) False (\<lambda>a b. 0)"

text \<open>
  Diagnostics for the file \<open>/proj/src/a.ts\<close>, which is open in editor 0: one with a
  code, a copy of it that differs in source and data only, one without a code, and
  one that the example delegate suppresses (it ignores the source \<open>noise\<close>). The
  example adapter has one attached consumer and an empty intentions index.
\<close>

definition demo_diagnostic :: Diagnostic where
  "demo_diagnostic =
     \<lparr>range_diag = LsRange (Position 1 0) (Position 1 5),
      severity_diag = Some Warning_severity,
      code_diag = Some (CodeString ''W1''),
      codeDescription = None,
      source_diag = Some ''lint'',
      message_diag = ''unused var'',
      tags = None,
      relatedInformation = None,
      data_diag = None\<rparr>"

definition demo_relabelled :: Diagnostic where
  "demo_relabelled = demo_diagnostic\<lparr>source_diag := Some ''other'', data_diag := Some ''7''\<rparr>"

definition demo_uncoded :: Diagnostic where
  "demo_uncoded = demo_diagnostic\<lparr>code_diag := None, message_diag := ''missing semicolon''\<rparr>"

definition demo_noise :: Diagnostic where
  "demo_noise = demo_diagnostic\<lparr>source_diag := Some ''noise'', message_diag := ''chatter''\<rparr>"

definition demo_delegate :: LinterDelegate where
  "demo_delegate =
     \<lparr>shouldIgnoreMessage = (\<lambda>d e r. source_diag d = Some ''noise''), transformMessage = None\<rparr>"

definition demo_workspace :: workspace where
  "demo_workspace = [(0, Some ''/proj/src/a.ts''), (1, Some ''/proj/src/b.ts'')]"

definition demo_linter :: linter_state where
  "demo_linter =
     \<lparr>diagnosticMap = (\<lambda>_. None), lsDiagnosticMap = (\<lambda>_. None), indies = [0], published = [],
      lastDiagnosticsParamsByEditor = (\<lambda>_. None), editorsWithSaveCallbacks = {},
      intentionsManager = Some (\<lambda>_. None)\<rparr>"

definition demo_batch :: PublishDiagnosticsParams where
  "demo_batch =
     \<lparr>uri = ''file:///proj/src/a.ts'', diagnostics = [demo_diagnostic, demo_noise, demo_uncoded]\<rparr>"

definition demo_uncoded_batch :: PublishDiagnosticsParams where
  "demo_uncoded_batch = \<lparr>uri = ''file:///proj/src/a.ts'', diagnostics = [demo_uncoded]\<rparr>"

text \<open>
  The registry that two overlapping requests for key 7 leave behind: while the
  work of the first request is pending, the second request starts (it calls
  \<open>cancelAndRefreshCancellationToken\<close> and stays pending); then the work of the
  first resolves, and the first request deletes the key.
\<close>

definition demo_interleaved_store :: "nat token_store" where
  "demo_interleaved_store =
     snd (doWithCancellationToken 7
            (\<lambda>token s. (Inr () :: error + unit, snd (cancelAndRefreshCancellationToken 7 s)))
            empty_store)"




section \<open>Properties of the cancellation protocol\<close>

lemma store_inv_empty: "store_inv (empty_store :: 'k token_store)"
  by (simp add: store_inv_def empty_store_def live_for_def)

lemma refresh_fresh:
  "fst (cancelAndRefreshCancellationToken key s) = length (sources s)"
  by (simp add: cancelAndRefreshCancellationToken_def Let_def cancel_def split: option.splits)

lemma refresh_registry:
  "registry (snd (cancelAndRefreshCancellationToken key s))
     = (registry s)(key \<mapsto> length (sources s))"
  by (simp add: cancelAndRefreshCancellationToken_def Let_def cancel_def split: option.splits)

lemma refresh_sources:
  "sources (snd (cancelAndRefreshCancellationToken key s))
     = (case registry s key of Some old \<Rightarrow> (sources s)[old := True] | None \<Rightarrow> sources s) @ [False]"
proof (cases "registry s key")
  case None
  then show ?thesis by (simp add: cancelAndRefreshCancellationToken_def Let_def)
next
  case (Some old)
  have "sources s ! old \<Longrightarrow> (sources s)[old := True] = sources s"
    by (metis list_update_id)
  then show ?thesis using Some
    by (simp add: cancelAndRefreshCancellationToken_def Let_def cancel_def isCancellationRequested_def)
qed

lemma refresh_events:
  "events (snd (cancelAndRefreshCancellationToken key s))
     = events s
       @ (case registry s key of
            Some old \<Rightarrow> if isCancellationRequested s old then [] else [CancelCalled old]
          | None \<Rightarrow> [])
       @ [SourceCreated key (length (sources s))]"
  by (simp add: cancelAndRefreshCancellationToken_def Let_def cancel_def split: option.splits)

lemma refresh_created:
  "SourceCreated k i \<in> set (events (snd (cancelAndRefreshCancellationToken key s)))
     \<longleftrightarrow> SourceCreated k i \<in> set (events s) \<or> (k = key \<and> i = length (sources s))"
  by (auto simp: refresh_events split: option.splits)

lemma refresh_length:
  "length (sources (snd (cancelAndRefreshCancellationToken key s))) = Suc (length (sources s))"
  by (simp add: refresh_sources split: option.splits)

lemma refresh_nth_old:
  assumes "i < length (sources s)"
  shows "sources (snd (cancelAndRefreshCancellationToken key s)) ! i
           = (sources s ! i \<or> registry s key = Some i)"
proof (cases "registry s key")
  case None
  then show ?thesis using assms by (simp add: refresh_sources nth_append)
next
  case (Some old)
  then show ?thesis using assms
    by (cases "i = old") (auto simp: refresh_sources nth_append)
qed

lemma refresh_nth_new:
  "\<not> sources (snd (cancelAndRefreshCancellationToken key s)) ! length (sources s)"
  by (simp add: refresh_sources nth_append split: option.splits)

lemma refresh_live:
  assumes "store_inv s"
  shows "live_for (snd (cancelAndRefreshCancellationToken key s)) k i
           \<longleftrightarrow> (if k = key then i = length (sources s) else live_for s k i)"
proof -
  let ?s' = "snd (cancelAndRefreshCancellationToken key s)"
  have created: "\<And>k i. registry s k = Some i \<Longrightarrow> SourceCreated k i \<in> set (events s)"
    and alloc: "\<And>k i. SourceCreated k i \<in> set (events s) \<Longrightarrow> i < length (sources s)"
    and owner: "\<And>k k' i. SourceCreated k i \<in> set (events s)
                  \<Longrightarrow> SourceCreated k' i \<in> set (events s) \<Longrightarrow> k = k'"
    and reg: "\<And>k i. live_for s k i \<Longrightarrow> registry s k = Some i"
    using assms unfolding store_inv_def by blast+
  consider (new) "i = length (sources s)" | (old) "i < length (sources s)"
    | (out) "i > length (sources s)"
    by linarith
  then show ?thesis
  proof cases
    case new
    have "SourceCreated k i \<notin> set (events s)" using new alloc by blast
    then show ?thesis
      using new refresh_nth_new[of key s]
      by (auto simp: live_for_def refresh_created refresh_length)
  next
    case old
    have nth: "sources ?s' ! i = (sources s ! i \<or> registry s key = Some i)"
      by (rule refresh_nth_old[OF old])
    show ?thesis
    proof (cases "k = key")
      case True
      have "\<not> live_for ?s' k i"
      proof
        assume l: "live_for ?s' k i"
        then have "SourceCreated k i \<in> set (events s)" "\<not> sources s ! i"
          "registry s key \<noteq> Some i"
          using old nth by (auto simp: live_for_def refresh_created)
        then have "live_for s k i" using old by (simp add: live_for_def)
        then show False using reg True \<open>registry s key \<noteq> Some i\<close> by blast
      qed
      then show ?thesis using True old by simp
    next
      case False
      have "SourceCreated k i \<in> set (events s) \<Longrightarrow> registry s key \<noteq> Some i"
        using created owner False by blast
      then show ?thesis
        using False old nth by (auto simp: live_for_def refresh_created refresh_length)
    qed
  next
    case out
    then show ?thesis using alloc
      by (auto simp: live_for_def refresh_created refresh_length)
  qed
qed

lemma refresh_inv:
  assumes "store_inv s"
  shows "store_inv (snd (cancelAndRefreshCancellationToken key s))"
proof -
  let ?s' = "snd (cancelAndRefreshCancellationToken key s)"
  have created: "\<And>k i. registry s k = Some i \<Longrightarrow> SourceCreated k i \<in> set (events s)"
    and alloc: "\<And>k i. SourceCreated k i \<in> set (events s) \<Longrightarrow> i < length (sources s)"
    and owner: "\<And>k k' i. SourceCreated k i \<in> set (events s)
                  \<Longrightarrow> SourceCreated k' i \<in> set (events s) \<Longrightarrow> k = k'"
    and reg: "\<And>k i. live_for s k i \<Longrightarrow> registry s k = Some i"
    using assms unfolding store_inv_def by blast+
  have 1: "\<forall>k i. registry ?s' k = Some i \<longrightarrow> SourceCreated k i \<in> set (events ?s')"
    using created by (auto simp: refresh_registry refresh_created)
  have 2: "\<forall>k i. SourceCreated k i \<in> set (events ?s') \<longrightarrow> i < length (sources ?s')"
    using alloc by (auto simp: refresh_created refresh_length less_Suc_eq)
  have 3: "\<forall>k k' i. SourceCreated k i \<in> set (events ?s')
             \<longrightarrow> SourceCreated k' i \<in> set (events ?s') \<longrightarrow> k = k'"
  proof (intro allI impI)
    fix k k' i
    assume a: "SourceCreated k i \<in> set (events ?s')"
      and b: "SourceCreated k' i \<in> set (events ?s')"
    from a have a': "SourceCreated k i \<in> set (events s) \<or> (k = key \<and> i = length (sources s))"
      by (simp only: refresh_created)
    from b have b': "SourceCreated k' i \<in> set (events s) \<or> (k' = key \<and> i = length (sources s))"
      by (simp only: refresh_created)
    show "k = k'"
    proof (cases "i = length (sources s)")
      case True
      then have "SourceCreated k i \<notin> set (events s)" "SourceCreated k' i \<notin> set (events s)"
        using alloc by blast+
      then show ?thesis using a' b' by blast
    next
      case False
      then show ?thesis using a' b' owner by blast
    qed
  qed
  have 4: "\<forall>k i. live_for ?s' k i \<longrightarrow> registry ?s' k = Some i"
  proof (intro allI impI)
    fix k i
    assume "live_for ?s' k i"
    then have l: "if k = key then i = length (sources s) else live_for s k i"
      by (simp only: refresh_live[OF assms])
    show "registry ?s' k = Some i"
    proof (cases "k = key")
      case True
      then show ?thesis using l by (simp add: refresh_registry)
    next
      case False
      then have "registry s k = Some i" using l reg by simp
      then show ?thesis using False by (simp add: refresh_registry)
    qed
  qed
  show ?thesis unfolding store_inv_def using 1 2 3 4 by blast
qed

text \<open>
  What one call does: it requests cancellation of the token stored under the key
  (calling \<open>cancel\<close> exactly when that token is not yet cancelled, and before the
  new source is created), then stores a fresh, not-yet-cancelled token under the
  key and returns it, leaving every other key and every other source as they
  were. Only when every live token is the registry's entry of its key is the
  returned token afterwards the only live token of the key.
\<close>

lemma refresh_effect:
  assumes wf: "store_wf s"
    and run: "cancelAndRefreshCancellationToken key s = (token, s')"
  shows "(\<forall>old. registry s key = Some old \<longrightarrow> isCancellationRequested s' old)
    \<and> events s' = events s
           @ (case registry s key of
                Some old \<Rightarrow> if isCancellationRequested s old then [] else [CancelCalled old]
              | None \<Rightarrow> [])
           @ [SourceCreated key token]
    \<and> token = length (sources s) \<and> token < length (sources s')
    \<and> \<not> isCancellationRequested s' token
    \<and> registry s' = (registry s)(key \<mapsto> token)
    \<and> (\<forall>i < length (sources s). registry s key \<noteq> Some i \<longrightarrow> sources s' ! i = sources s ! i)
    \<and> (store_inv s \<longrightarrow> store_inv s' \<and> (\<forall>i. live_for s' key i \<longleftrightarrow> i = token))"
proof -
  have t: "token = length (sources s)" and s': "s' = snd (cancelAndRefreshCancellationToken key s)"
    using run refresh_fresh[of key s] by auto
  have 1: "\<forall>old. registry s key = Some old \<longrightarrow> isCancellationRequested s' old"
    using wf unfolding s' isCancellationRequested_def store_wf_def
    by (auto simp: refresh_nth_old)
  have 2: "events s' = events s
           @ (case registry s key of
                Some old \<Rightarrow> if isCancellationRequested s old then [] else [CancelCalled old]
              | None \<Rightarrow> [])
           @ [SourceCreated key token]"
    unfolding s' t by (rule refresh_events)
  have 3: "token = length (sources s) \<and> token < length (sources s')
           \<and> \<not> isCancellationRequested s' token"
    unfolding s' t isCancellationRequested_def using refresh_nth_new[of key s]
    by (simp add: refresh_length)
  have 4: "registry s' = (registry s)(key \<mapsto> token)"
    unfolding s' t by (rule refresh_registry)
  have 5: "\<forall>i < length (sources s). registry s key \<noteq> Some i \<longrightarrow> sources s' ! i = sources s ! i"
    unfolding s' by (simp add: refresh_nth_old)
  have 6: "store_inv s \<longrightarrow> store_inv s' \<and> (\<forall>i. live_for s' key i \<longleftrightarrow> i = token)"
    unfolding s' t by (simp add: refresh_inv refresh_live)
  from 1 2 3 4 5 6 show ?thesis by blast
qed

text \<open>
  C1. The call cancels the token that the registry holds under the key, and no
  other. Two requests for key 7 overlap: the first installs token 0; the second
  cancels token 0 and installs token 1; the first then resolves, and its
  \<open>cancellationTokens.delete(key)\<close> removes the entry of the second request, which
  is still pending. In the registry so left, the call for a third request finds no
  entry under the key, calls \<open>cancel\<close> on nothing and installs token 2: tokens 1 and
  2 are both live for the key, and the second request is not invalidated before
  the third is sent.
\<close>

theorem cancelAndRefresh_misses_deleted_entry:
  "events demo_interleaved_store = [SourceCreated 7 0, CancelCalled 0, SourceCreated 7 1]
   \<and> registry demo_interleaved_store 7 = None
   \<and> live_for demo_interleaved_store 7 1
   \<and> fst (cancelAndRefreshCancellationToken 7 demo_interleaved_store) = 2
   \<and> events (snd (cancelAndRefreshCancellationToken 7 demo_interleaved_store))
       = [SourceCreated 7 0, CancelCalled 0, SourceCreated 7 1, SourceCreated 7 2]
   \<and> live_for (snd (cancelAndRefreshCancellationToken 7 demo_interleaved_store)) 7 1
   \<and> live_for (snd (cancelAndRefreshCancellationToken 7 demo_interleaved_store)) 7 2"
  by (simp add: demo_interleaved_store_def doWithCancellationToken_def
        cancelAndRefreshCancellationToken_def empty_store_def Let_def cancel_def
        isCancellationRequested_def live_for_def)

text \<open>
  C7. \<open>doWithCancellationToken\<close> removes the registry entry of its key after the
  wrapped work has resolved. When the work rejects, the rejection leaves the
  function before the removal, and the entry installed for the request stays in
  the registry: evaluated on the empty registry with a work that rejects, and with
  one that resolves.
\<close>

theorem doWithCancellationToken_rejection_keeps_entry:
  "registry (snd (doWithCancellationToken (7::nat)
       (\<lambda>token s. (Inl (Error ''request failed'') :: error + unit, s)) empty_store)) 7 = Some 0
   \<and> registry (snd (doWithCancellationToken (7::nat)
       (\<lambda>token s. (Inr () :: error + unit, s)) empty_store)) 7 = None"
  by (simp add: doWithCancellationToken_def cancelAndRefreshCancellationToken_def
        empty_store_def Let_def)

section \<open>Properties of crash handling\<close>

lemma close_active:
  assumes "\<not> isDeactivating st"
  shows "\<not> isDeactivating (onConnectionClose name p st)"
    and "restartLimit (onConnectionClose name p st) = restartLimit st"
    and "restartCounter (onConnectionClose name p st) p = Suc (restartCounter st p)"
    and "effects (onConnectionClose name p st) = effects st @
           (if restartCounter st p < restartLimit st
            then [StopServer p, LogDebug (restartingMessage p), StartServer p]
            else [StopServer p, LogWarn (limitWarning p), NotifyError (limitNotification name p)])"
  using assms
  by (auto simp: onConnectionClose_def stopServer_def hasServerReachedRestartLimit_def
        startServer_def emit_def Let_def)

lemma closes_within_budget:
  assumes "\<not> isDeactivating st" and "restartCounter st p = 0" and "k \<le> restartLimit st"
  shows "\<not> isDeactivating (closes k name p st)
    \<and> restartLimit (closes k name p st) = restartLimit st
    \<and> restartCounter (closes k name p st) p = k
    \<and> effects (closes k name p st) = effects st
         @ concat (replicate k [StopServer p, LogDebug (restartingMessage p), StartServer p])"
  using assms
proof (induction k)
  case 0
  then show ?case by simp
next
  case (Suc k)
  let ?mid = "closes k name p st"
  have act: "\<not> isDeactivating ?mid"
    and lim: "restartLimit ?mid = restartLimit st"
    and cnt: "restartCounter ?mid p = k"
    and eff: "effects ?mid = effects st
         @ concat (replicate k [StopServer p, LogDebug (restartingMessage p), StartServer p])"
    using Suc by simp_all
  have lt: "restartCounter ?mid p < restartLimit ?mid" using Suc.prems lim cnt by simp
  have rep: "concat (replicate k [StopServer p, LogDebug (restartingMessage p), StartServer p])
               @ [StopServer p, LogDebug (restartingMessage p), StartServer p]
             = concat (replicate (Suc k) [StopServer p, LogDebug (restartingMessage p), StartServer p])"
  proof -
    have "replicate (Suc k) [StopServer p, LogDebug (restartingMessage p), StartServer p]
            = replicate k [StopServer p, LogDebug (restartingMessage p), StartServer p]
                @ [[StopServer p, LogDebug (restartingMessage p), StartServer p]]"
      by (simp add: replicate_append_same)
    then show ?thesis by (simp only: concat_append concat.simps append_Nil2)
  qed
  have step: "closes (Suc k) name p st = onConnectionClose name p ?mid" by simp
  have "effects (closes (Suc k) name p st) = effects ?mid
          @ [StopServer p, LogDebug (restartingMessage p), StartServer p]"
    unfolding step using close_active(4)[OF act, of name p] lt by simp
  then have "effects (closes (Suc k) name p st) = effects st
         @ concat (replicate (Suc k) [StopServer p, LogDebug (restartingMessage p), StartServer p])"
    unfolding eff using rep by (simp only: append_assoc)
  moreover have "\<not> isDeactivating (closes (Suc k) name p st)"
    unfolding step by (rule close_active(1)[OF act])
  moreover have "restartLimit (closes (Suc k) name p st) = restartLimit st"
    unfolding step using close_active(2)[OF act] lim by simp
  moreover have "restartCounter (closes (Suc k) name p st) p = Suc k"
    unfolding step using close_active(3)[OF act] cnt by simp
  ultimately show ?case by blast
qed

text \<open>
  C2. While the client is not deactivating, each of the first \<open>N\<close> consecutive
  unexpected closes of the server of one project path (\<open>N\<close> the restart budget)
  stops the server, writes one debug-level log line and starts a server for the
  same path, and nothing else; the close after them stops the server, starts no
  server, and emits one warning log line and one error notification.
\<close>

theorem restart_budget:
  assumes "\<not> isDeactivating st" and "restartCounter st p = 0" and "restartLimit st = N"
  shows "(\<forall>k \<le> N. effects (closes k name p st) = effects st
            @ concat (replicate k [StopServer p, LogDebug (restartingMessage p), StartServer p]))
    \<and> effects (closes (Suc N) name p st) = effects st
            @ concat (replicate N [StopServer p, LogDebug (restartingMessage p), StartServer p])
            @ [StopServer p, LogWarn (limitWarning p), NotifyError (limitNotification name p)]"
proof -
  have within: "\<forall>k \<le> N. effects (closes k name p st) = effects st
            @ concat (replicate k [StopServer p, LogDebug (restartingMessage p), StartServer p])"
    using closes_within_budget[OF assms(1,2)] assms(3) by simp
  let ?mid = "closes N name p st"
  have act: "\<not> isDeactivating ?mid"
    and lim: "restartLimit ?mid = restartLimit st"
    and cnt: "restartCounter ?mid p = N"
    and eff: "effects ?mid = effects st
         @ concat (replicate N [StopServer p, LogDebug (restartingMessage p), StartServer p])"
    using closes_within_budget[OF assms(1,2), of N name] assms(3) by simp_all
  have ge: "\<not> restartCounter ?mid p < restartLimit ?mid" using assms(3) lim cnt by simp
  have step: "closes (Suc N) name p st = onConnectionClose name p ?mid" by simp
  have "effects (closes (Suc N) name p st) = effects ?mid
               @ [StopServer p, LogWarn (limitWarning p), NotifyError (limitNotification name p)]"
    unfolding step using close_active(4)[OF act, of name p] ge by simp
  then show ?thesis using within eff by simp
qed

theorem restart_budget_witness:
  "\<not> isDeactivating \<lparr>isDeactivating = False, restartLimit = 2, restartCounter = (\<lambda>_. 0), effects = []\<rparr>
   \<and> effects (closes 2 ''Lang'' ''/proj''
        \<lparr>isDeactivating = False, restartLimit = 2, restartCounter = (\<lambda>_. 0), effects = []\<rparr>)
      = [StopServer ''/proj'', LogDebug (restartingMessage ''/proj''), StartServer ''/proj'',
         StopServer ''/proj'', LogDebug (restartingMessage ''/proj''), StartServer ''/proj'']
   \<and> effects (closes (Suc 2) ''Lang'' ''/proj''
        \<lparr>isDeactivating = False, restartLimit = 2, restartCounter = (\<lambda>_. 0), effects = []\<rparr>)
      = [StopServer ''/proj'', LogDebug (restartingMessage ''/proj''), StartServer ''/proj'',
         StopServer ''/proj'', LogDebug (restartingMessage ''/proj''), StartServer ''/proj'',
         StopServer ''/proj'', LogWarn (limitWarning ''/proj''),
         NotifyError (limitNotification ''Lang'' ''/proj'')]"
proof -
  let ?st = "\<lparr>isDeactivating = False, restartLimit = 2, restartCounter = (\<lambda>_. 0), effects = []\<rparr>"
  have h1: "\<not> isDeactivating ?st" and h2: "restartCounter ?st ''/proj'' = 0"
    and h3: "restartLimit ?st = 2"
    by simp_all
  note th = restart_budget[OF h1 h2 h3, of "''Lang''"]
  have rep: "concat (replicate 2 [StopServer ''/proj'', LogDebug (restartingMessage ''/proj''),
                StartServer ''/proj''])
      = [StopServer ''/proj'', LogDebug (restartingMessage ''/proj''), StartServer ''/proj'',
         StopServer ''/proj'', LogDebug (restartingMessage ''/proj''), StartServer ''/proj'']"
    by (simp add: numeral_2_eq_2)
  from th have "effects (closes 2 ''Lang'' ''/proj'' ?st) = effects ?st
      @ concat (replicate 2 [StopServer ''/proj'', LogDebug (restartingMessage ''/proj''),
                StartServer ''/proj''])"
    by blast
  then have a: "effects (closes 2 ''Lang'' ''/proj'' ?st)
      = [StopServer ''/proj'', LogDebug (restartingMessage ''/proj''), StartServer ''/proj'',
         StopServer ''/proj'', LogDebug (restartingMessage ''/proj''), StartServer ''/proj'']"
    unfolding rep by simp
  from th have "effects (closes (Suc 2) ''Lang'' ''/proj'' ?st) = effects ?st
      @ concat (replicate 2 [StopServer ''/proj'', LogDebug (restartingMessage ''/proj''),
                StartServer ''/proj''])
      @ [StopServer ''/proj'', LogWarn (limitWarning ''/proj''),
         NotifyError (limitNotification ''Lang'' ''/proj'')]"
    by blast
  then have b: "effects (closes (Suc 2) ''Lang'' ''/proj'' ?st)
      = [StopServer ''/proj'', LogDebug (restartingMessage ''/proj''), StartServer ''/proj'',
         StopServer ''/proj'', LogDebug (restartingMessage ''/proj''), StartServer ''/proj'',
         StopServer ''/proj'', LogWarn (limitWarning ''/proj''),
         NotifyError (limitNotification ''Lang'' ''/proj'')]"
    unfolding rep by simp
  from h1 a b show ?thesis by blast
qed

section \<open>Properties of connection set-up\<close>

text \<open>
  C8. With the stdio transport and a server process that lacks a standard-input
  handle, \<open>createRpcConnection\<close> writes the error to the log and then returns
  normally: \<open>assertUnreachable\<close> hands back the string it was given, which takes the
  place of the connection. No reader, writer or connection is built, and nothing
  is raised.
\<close>

theorem createRpcConnection_stdio_without_stdin:
  "createRpcConnection ''stdio'' ''Lang'' 0 \<lparr>stdin = None, stdout = Some 1\<rparr> []
     = (Inr (NotAConnection ''stdio''),
        [LogError ''The language server process for Lang does not have a valid stdin and stdout.''])"
  by (simp add: createRpcConnection_def assertUnreachable_def)

section \<open>Properties of the suggestion cache\<close>


lemma isEqual_eq: "isEqual a b \<longleftrightarrow> a = b"
  by (cases a; cases b) (simp add: isEqual_def)

lemma isLessThanOrEqual_lex:
  "isLessThanOrEqual a b \<longleftrightarrow> row a < row b \<or> (row a = row b \<and> column a \<le> column b)"
  by (auto simp: isLessThanOrEqual_def point_compare_def)

lemma cacheIsValid_iff:
  "cacheIsValid cache tc tp pos \<longleftrightarrow>
     (\<exists>c. cache = Some c \<and> \<not> isIncomplete c \<and> triggerChar c = tc \<and> triggerPoint c = tp
          \<and> (row (originalBufferPoint c) < row pos
               \<or> (row (originalBufferPoint c) = row pos \<and> column (originalBufferPoint c) \<le> column pos)))"
  by (cases cache) (auto simp: cacheIsValid_def isEqual_eq isLessThanOrEqual_lex)

lemma getOrBuild_hit:
  assumes "suggestionCache st (server_id server) = Some c"
    and "cacheIsValid (Some c) tc (computeTriggerPoint request tc triggerOnly) (bufferPosition request)"
  shows "getOrBuildSuggestions P conn server request tc triggerOnly apiVersion shouldReplace cb st
           = (Inr (map fst (suggestionMap c)), st)"
  using assms by (simp add: getOrBuildSuggestions_def Let_def)

lemma doWith_simple:
  "doWithCancellationToken key (\<lambda>t ts. (f t, ts)) s =
     (f (length (sources s)),
      (case f (length (sources s)) of
         Inl e \<Rightarrow> snd (cancelAndRefreshCancellationToken key s)
       | Inr v \<Rightarrow> (snd (cancelAndRefreshCancellationToken key s))
                    \<lparr>registry := (registry (snd (cancelAndRefreshCancellationToken key s)))(key := None)\<rparr>))"
proof -
  obtain t s1 where r: "cancelAndRefreshCancellationToken key s = (t, s1)"
    by (cases "cancelAndRefreshCancellationToken key s")
  then have "t = length (sources s)" using refresh_fresh[of key s] by simp
  then show ?thesis using r
    by (simp add: doWithCancellationToken_def split: sum.splits)
qed

lemma getOrBuild_miss:
  assumes miss: "\<not> cacheIsValid (suggestionCache st (server_id server)) tc
                    (computeTriggerPoint request tc triggerOnly) (bufferPosition request)"
    and params: "createCompletionParams P request tc triggerOnly = Inr ps"
    and run: "getOrBuildSuggestions P conn server request tc triggerOnly apiVersion shouldReplace cb st
                = (res, st')"
  shows "requests st' = requests st @ [CompletionRequest ps (length (sources (cancellationTokens st)))]"
    and "completion conn ps (length (sources (cancellationTokens st))) = Inr cs \<Longrightarrow>
           res = Inr [length (suggestions st) ..< length (suggestions st)
                        + length (completionItemsToSuggestions P cs request apiVersion shouldReplace cb)]
           \<and> suggestionCache st' = (suggestionCache st)(server_id server \<mapsto>
               \<lparr>isIncomplete = (\<exists>items. cs = CompletionList True items),
                triggerPoint = computeTriggerPoint request tc triggerOnly,
                originalBufferPoint = bufferPosition request,
                triggerChar = tc,
                suggestionMap = zip [length (suggestions st) ..< length (suggestions st)
                        + length (completionItemsToSuggestions P cs request apiVersion shouldReplace cb)]
                     (map snd (completionItemsToSuggestions P cs request apiVersion shouldReplace cb))\<rparr>)
           \<and> suggestions st' = suggestions st
                @ map fst (completionItemsToSuggestions P cs request apiVersion shouldReplace cb)"
    and "completion conn ps (length (sources (cancellationTokens st))) = Inl e \<Longrightarrow>
           res = Inl e \<and> suggestionCache st' = suggestionCache st"
proof -
  let ?tok = "length (sources (cancellationTokens st))"
  have fst_tok: "fst (cancelAndRefreshCancellationToken (connection_id server) (cancellationTokens st)) = ?tok"
    by (rule refresh_fresh)
  have dw: "doWithCancellationToken (connection_id server)
              (\<lambda>cancellationToken ts. (case (Inr ps :: error + CompletionParams) of Inl e \<Rightarrow> Inl e
                    | Inr ps \<Rightarrow> completion conn ps cancellationToken, ts)) (cancellationTokens st)
            = (completion conn ps ?tok,
               (case completion conn ps ?tok of
                  Inl e \<Rightarrow> snd (cancelAndRefreshCancellationToken (connection_id server) (cancellationTokens st))
                | Inr v \<Rightarrow> (snd (cancelAndRefreshCancellationToken (connection_id server) (cancellationTokens st)))
                    \<lparr>registry := (registry (snd (cancelAndRefreshCancellationToken (connection_id server) (cancellationTokens st))))(connection_id server := None)\<rparr>))"
    using doWith_simple[of "connection_id server" "\<lambda>t. completion conn ps t" "cancellationTokens st"]
    by simp
  show "requests st' = requests st @ [CompletionRequest ps ?tok]"
    using run miss unfolding getOrBuildSuggestions_def params Let_def fst_tok dw
    by (auto split: sum.splits completion_response.splits)
  show "completion conn ps ?tok = Inr cs \<Longrightarrow>
           res = Inr [length (suggestions st) ..< length (suggestions st)
                        + length (completionItemsToSuggestions P cs request apiVersion shouldReplace cb)]
           \<and> suggestionCache st' = (suggestionCache st)(server_id server \<mapsto>
               \<lparr>isIncomplete = (\<exists>items. cs = CompletionList True items),
                triggerPoint = computeTriggerPoint request tc triggerOnly,
                originalBufferPoint = bufferPosition request,
                triggerChar = tc,
                suggestionMap = zip [length (suggestions st) ..< length (suggestions st)
                        + length (completionItemsToSuggestions P cs request apiVersion shouldReplace cb)]
                     (map snd (completionItemsToSuggestions P cs request apiVersion shouldReplace cb))\<rparr>)
           \<and> suggestions st' = suggestions st
                @ map fst (completionItemsToSuggestions P cs request apiVersion shouldReplace cb)"
    using run miss unfolding getOrBuildSuggestions_def params Let_def fst_tok dw
    by (cases cs) auto
  show "completion conn ps ?tok = Inl e \<Longrightarrow> res = Inl e \<and> suggestionCache st' = suggestionCache st"
    using run miss unfolding getOrBuildSuggestions_def params Let_def fst_tok dw
    by auto
qed


lemma map_nth_fresh:
  "map (\<lambda>k. (xs @ ys) ! k) [length xs ..< length xs + length ys] = ys"
proof (rule nth_equalityI)
  show "length (map (\<lambda>k. (xs @ ys) ! k) [length xs ..< length xs + length ys]) = length ys"
    by simp
next
  fix i
  assume "i < length (map (\<lambda>k. (xs @ ys) ! k) [length xs ..< length xs + length ys])"
  then have "i < length ys" by simp
  then show "map (\<lambda>k. (xs @ ys) ! k) [length xs ..< length xs + length ys] ! i = ys ! i"
    by (simp add: nth_append)
qed

text \<open>
  C3. \<open>getOrBuildSuggestions\<close> returns the cached suggestions and leaves the adapter
  as it was (no request is sent) exactly when the server has a cache entry that is
  not marked incomplete, whose trigger character and trigger point equal those
  computed for the request, and whose original request position is not after the
  request's buffer position. In every other case a completion request is sent
  (once its parameters are built), and when the server answers, the server's
  cache entry is replaced by one for this request, marked incomplete exactly when
  the answer is a completion list flagged incomplete; the new suggestions are
  returned.
\<close>

theorem getOrBuildSuggestions_cache_reuse:
  assumes run: "getOrBuildSuggestions P conn server request tc triggerOnly apiVersion
                  shouldReplace cb st = (res, st')"
  shows "((\<exists>c. suggestionCache st (server_id server) = Some c \<and> \<not> isIncomplete c
             \<and> triggerChar c = tc \<and> triggerPoint c = computeTriggerPoint request tc triggerOnly
             \<and> (row (originalBufferPoint c) < row (bufferPosition request)
                  \<or> (row (originalBufferPoint c) = row (bufferPosition request)
                      \<and> column (originalBufferPoint c) \<le> column (bufferPosition request))))
          \<longrightarrow> st' = st
              \<and> res = Inr (map fst (suggestionMap (the (suggestionCache st (server_id server))))))
    \<and> (\<not> (\<exists>c. suggestionCache st (server_id server) = Some c \<and> \<not> isIncomplete c
             \<and> triggerChar c = tc \<and> triggerPoint c = computeTriggerPoint request tc triggerOnly
             \<and> (row (originalBufferPoint c) < row (bufferPosition request)
                  \<or> (row (originalBufferPoint c) = row (bufferPosition request)
                      \<and> column (originalBufferPoint c) \<le> column (bufferPosition request))))
          \<longrightarrow> (\<forall>ps. createCompletionParams P request tc triggerOnly = Inr ps \<longrightarrow>
                 requests st' = requests st
                    @ [CompletionRequest ps (length (sources (cancellationTokens st)))]
                 \<and> (\<forall>cs. completion conn ps (length (sources (cancellationTokens st))) = Inr cs \<longrightarrow>
                      (\<exists>entry keys.
                         suggestionCache st' = (suggestionCache st)(server_id server \<mapsto> entry)
                         \<and> (isIncomplete entry \<longleftrightarrow> (\<exists>items. cs = CompletionList True items))
                         \<and> triggerChar entry = tc
                         \<and> triggerPoint entry = computeTriggerPoint request tc triggerOnly
                         \<and> originalBufferPoint entry = bufferPosition request
                         \<and> map fst (suggestionMap entry) = keys
                         \<and> res = Inr keys
                         \<and> map (\<lambda>k. suggestions st' ! k) keys
                              = map fst (completionItemsToSuggestions P cs request apiVersion
                                           shouldReplace cb)))))"
proof -
  let ?valid = "cacheIsValid (suggestionCache st (server_id server)) tc
                  (computeTriggerPoint request tc triggerOnly) (bufferPosition request)"
  let ?cond = "\<exists>c. suggestionCache st (server_id server) = Some c \<and> \<not> isIncomplete c
             \<and> triggerChar c = tc \<and> triggerPoint c = computeTriggerPoint request tc triggerOnly
             \<and> (row (originalBufferPoint c) < row (bufferPosition request)
                  \<or> (row (originalBufferPoint c) = row (bufferPosition request)
                      \<and> column (originalBufferPoint c) \<le> column (bufferPosition request)))"
  have iff: "?valid \<longleftrightarrow> ?cond" by (rule cacheIsValid_iff)
  have hit: "?cond \<longrightarrow> st' = st
              \<and> res = Inr (map fst (suggestionMap (the (suggestionCache st (server_id server)))))"
  proof
    assume ?cond
    then obtain c where c: "suggestionCache st (server_id server) = Some c" and v: ?valid
      using iff by blast
    from getOrBuild_hit[OF c, of tc request triggerOnly] v c run
    show "st' = st
              \<and> res = Inr (map fst (suggestionMap (the (suggestionCache st (server_id server)))))"
      by simp
  qed
  have miss: "\<not> ?cond \<longrightarrow> (\<forall>ps. createCompletionParams P request tc triggerOnly = Inr ps \<longrightarrow>
                 requests st' = requests st
                    @ [CompletionRequest ps (length (sources (cancellationTokens st)))]
                 \<and> (\<forall>cs. completion conn ps (length (sources (cancellationTokens st))) = Inr cs \<longrightarrow>
                      (\<exists>entry keys.
                         suggestionCache st' = (suggestionCache st)(server_id server \<mapsto> entry)
                         \<and> (isIncomplete entry \<longleftrightarrow> (\<exists>items. cs = CompletionList True items))
                         \<and> triggerChar entry = tc
                         \<and> triggerPoint entry = computeTriggerPoint request tc triggerOnly
                         \<and> originalBufferPoint entry = bufferPosition request
                         \<and> map fst (suggestionMap entry) = keys
                         \<and> res = Inr keys
                         \<and> map (\<lambda>k. suggestions st' ! k) keys
                              = map fst (completionItemsToSuggestions P cs request apiVersion
                                           shouldReplace cb))))"
  proof (intro impI allI)
    fix ps
    assume nc: "\<not> ?cond" and ps: "createCompletionParams P request tc triggerOnly = Inr ps"
    from nc iff have nv: "\<not> ?valid" by blast
    note m = getOrBuild_miss[OF nv ps run]
    let ?conv = "completionItemsToSuggestions P cs request apiVersion shouldReplace cb"
    have "\<exists>entry keys.
                         suggestionCache st' = (suggestionCache st)(server_id server \<mapsto> entry)
                         \<and> (isIncomplete entry \<longleftrightarrow> (\<exists>items. cs = CompletionList True items))
                         \<and> triggerChar entry = tc
                         \<and> triggerPoint entry = computeTriggerPoint request tc triggerOnly
                         \<and> originalBufferPoint entry = bufferPosition request
                         \<and> map fst (suggestionMap entry) = keys
                         \<and> res = Inr keys
                         \<and> map (\<lambda>k. suggestions st' ! k) keys
                              = map fst (completionItemsToSuggestions P cs request apiVersion
                                           shouldReplace cb)"
      if ok: "completion conn ps (length (sources (cancellationTokens st))) = Inr cs" for cs
    proof -
      let ?conv = "completionItemsToSuggestions P cs request apiVersion shouldReplace cb"
      let ?keys = "[length (suggestions st) ..< length (suggestions st) + length ?conv]"
      let ?entry = "\<lparr>isIncomplete = (\<exists>items. cs = CompletionList True items),
                triggerPoint = computeTriggerPoint request tc triggerOnly,
                originalBufferPoint = bufferPosition request,
                triggerChar = tc,
                suggestionMap = zip ?keys (map snd ?conv)\<rparr>"
      from m(2)[OF ok] have r: "res = Inr ?keys"
        and c: "suggestionCache st' = (suggestionCache st)(server_id server \<mapsto> ?entry)"
        and s: "suggestions st' = suggestions st @ map fst ?conv"
        by blast+
      have k: "map fst (suggestionMap ?entry) = ?keys" by simp
      have n: "map (\<lambda>k. suggestions st' ! k) ?keys = map fst ?conv"
        unfolding s using map_nth_fresh[of "suggestions st" "map fst ?conv"] by simp
      have "suggestionCache st' = (suggestionCache st)(server_id server \<mapsto> ?entry)
                         \<and> (isIncomplete ?entry \<longleftrightarrow> (\<exists>items. cs = CompletionList True items))
                         \<and> triggerChar ?entry = tc
                         \<and> triggerPoint ?entry = computeTriggerPoint request tc triggerOnly
                         \<and> originalBufferPoint ?entry = bufferPosition request
                         \<and> map fst (suggestionMap ?entry) = ?keys
                         \<and> res = Inr ?keys
                         \<and> map (\<lambda>k. suggestions st' ! k) ?keys = map fst ?conv"
        using c k r n by simp
      then show ?thesis by blast
    qed
    with m(1)
    show "requests st' = requests st
                    @ [CompletionRequest ps (length (sources (cancellationTokens st)))]
                 \<and> (\<forall>cs. completion conn ps (length (sources (cancellationTokens st))) = Inr cs \<longrightarrow>
                      (\<exists>entry keys.
                         suggestionCache st' = (suggestionCache st)(server_id server \<mapsto> entry)
                         \<and> (isIncomplete entry \<longleftrightarrow> (\<exists>items. cs = CompletionList True items))
                         \<and> triggerChar entry = tc
                         \<and> triggerPoint entry = computeTriggerPoint request tc triggerOnly
                         \<and> originalBufferPoint entry = bufferPosition request
                         \<and> map fst (suggestionMap entry) = keys
                         \<and> res = Inr keys
                         \<and> map (\<lambda>k. suggestions st' ! k) keys
                              = map fst (completionItemsToSuggestions P cs request apiVersion
                                           shouldReplace cb)))"
      by blast
  qed
  from hit miss show ?thesis by blast
qed

lemma demo_params:
  "createCompletionParams demo_platform demo_request [] False
     = Inr \<lparr>textDocument = ''file:///proj/src/a.ts'', position = Position 3 10, context_cp = Invoked\<rparr>"
  by (simp add: createCompletionParams_def pathToUri_def demo_platform_def demo_request_def
        pointToPosition_def createCompletionContext_def)

theorem getOrBuildSuggestions_cache_reuse_witness:
  "(\<exists>res st'. getOrBuildSuggestions demo_platform (demo_connection (Inr None)) demo_server
        demo_request [] False 5.1 False None demo_empty_adapter = (res, st')
      \<and> requests st' = [CompletionRequest
            \<lparr>textDocument = ''file:///proj/src/a.ts'', position = Position 3 10, context_cp = Invoked\<rparr> 0]
      \<and> (\<exists>entry. suggestionCache st' 1 = Some entry \<and> isIncomplete entry
            \<and> originalBufferPoint entry = Point 3 10 \<and> res = Inr (map fst (suggestionMap entry))))
   \<and> getOrBuildSuggestions demo_platform (demo_connection (Inr None)) demo_server
        demo_request [] False 5.1 False None demo_cached_adapter = (Inr [0], demo_cached_adapter)"
proof -
  let ?ps = "\<lparr>textDocument = ''file:///proj/src/a.ts'', position = Position 3 10, context_cp = Invoked\<rparr>"
  obtain res st' where run: "getOrBuildSuggestions demo_platform (demo_connection (Inr None))
        demo_server demo_request [] False 5.1 False None demo_empty_adapter = (res, st')"
    by (cases "getOrBuildSuggestions demo_platform (demo_connection (Inr None))
        demo_server demo_request [] False 5.1 False None demo_empty_adapter")
  note th = getOrBuildSuggestions_cache_reuse[OF run]
  have nocache: "\<not> (\<exists>c. suggestionCache demo_empty_adapter (server_id demo_server) = Some c
             \<and> \<not> isIncomplete c
             \<and> triggerChar c = [] \<and> triggerPoint c = computeTriggerPoint demo_request [] False
             \<and> (row (originalBufferPoint c) < row (bufferPosition demo_request)
                  \<or> (row (originalBufferPoint c) = row (bufferPosition demo_request)
                      \<and> column (originalBufferPoint c) \<le> column (bufferPosition demo_request))))"
    by (simp add: demo_empty_adapter_def)
  have answer: "completion (demo_connection (Inr None)) ?ps
                  (length (sources (cancellationTokens demo_empty_adapter)))
                = Inr (CompletionList True [demo_item])"
    by (simp add: demo_connection_def)
  from th nocache demo_params
  have req: "requests st' = requests demo_empty_adapter
               @ [CompletionRequest ?ps (length (sources (cancellationTokens demo_empty_adapter)))]"
    by blast
  then have req': "requests st' = [CompletionRequest ?ps 0]"
    by (simp add: demo_empty_adapter_def empty_store_def)
  from th nocache demo_params answer
  obtain entry keys where
    e: "suggestionCache st' = (suggestionCache demo_empty_adapter)(server_id demo_server \<mapsto> entry)"
       "isIncomplete entry \<longleftrightarrow> (\<exists>items. CompletionList True [demo_item] = CompletionList True items)"
       "originalBufferPoint entry = bufferPosition demo_request"
       "map fst (suggestionMap entry) = keys" "res = Inr keys"
    by blast
  have e1: "suggestionCache st' 1 = Some entry" using e(1) by (simp add: demo_server_def)
  have e2: "isIncomplete entry" using e(2) by simp
  have e3: "originalBufferPoint entry = Point 3 10" using e(3) by (simp add: demo_request_def)
  have e4: "res = Inr (map fst (suggestionMap entry))" using e(4,5) by simp
  obtain res2 st2 where run2: "getOrBuildSuggestions demo_platform (demo_connection (Inr None))
        demo_server demo_request [] False 5.1 False None demo_cached_adapter = (res2, st2)"
    by (cases "getOrBuildSuggestions demo_platform (demo_connection (Inr None))
        demo_server demo_request [] False 5.1 False None demo_cached_adapter")
  note th2 = getOrBuildSuggestions_cache_reuse[OF run2]
  have cached: "\<exists>c. suggestionCache demo_cached_adapter (server_id demo_server) = Some c
             \<and> \<not> isIncomplete c
             \<and> triggerChar c = [] \<and> triggerPoint c = computeTriggerPoint demo_request [] False
             \<and> (row (originalBufferPoint c) < row (bufferPosition demo_request)
                  \<or> (row (originalBufferPoint c) = row (bufferPosition demo_request)
                      \<and> column (originalBufferPoint c) \<le> column (bufferPosition demo_request)))"
    by (simp add: demo_cached_adapter_def demo_server_def demo_request_def computeTriggerPoint_def
          js_length_def)
  from th2 cached have "st2 = demo_cached_adapter
     \<and> res2 = Inr (map fst (suggestionMap (the (suggestionCache demo_cached_adapter (server_id demo_server)))))"
    by blast
  then have hit: "st2 = demo_cached_adapter \<and> res2 = Inr [0]"
    by (simp add: demo_cached_adapter_def demo_server_def)
  from run req' e1 e2 e3 e4 run2 hit show ?thesis by blast
qed

section \<open>Properties of lazy resolution\<close>


lemma set_resolved_lookup:
  "map_of (set_resolved sid m) k =
     (if k = sid then map_option (\<lambda>v. v\<lparr>isResolved := True\<rparr>) (map_of m k) else map_of m k)"
  by (induction m) (auto simp: set_resolved_def)

lemma applyDetails_frame:
  "\<exists>r d m. applyDetailsToSuggestion item s
             = s\<lparr>rightLabel := r, description := d, descriptionMarkdown := m\<rparr>"
proof -
  have "applyDetailsToSuggestion item s
          = s\<lparr>rightLabel := rightLabel (applyDetailsToSuggestion item s),
              description := description (applyDetailsToSuggestion item s),
              descriptionMarkdown := descriptionMarkdown (applyDetailsToSuggestion item s)\<rparr>"
    by (cases s) (auto simp: applyDetailsToSuggestion_def Let_def
                   split: option.splits documentation.splits)
  then show ?thesis by blast
qed

lemma complete_absent:
  assumes "\<forall>cache. suggestionCache st (server_id server) = Some cache
             \<longrightarrow> map_of (suggestionMap cache) sid = None"
  shows "completeSuggestion conn server sid request cb st = (Inr sid, st)"
  using assms by (auto simp: completeSuggestion_def split: option.splits)

lemma complete_resolved:
  assumes "suggestionCache st (server_id server) = Some cache"
    and "map_of (suggestionMap cache) sid = Some pr" and "isResolved pr"
  shows "completeSuggestion conn server sid request cb st = (Inr sid, st)"
  using assms by (simp add: completeSuggestion_def)

lemma complete_null:
  assumes "suggestionCache st (server_id server) = Some cache"
    and "map_of (suggestionMap cache) sid = Some pr" and "\<not> isResolved pr"
    and "completionItemResolve conn (completionItem_pr pr) = Inr None"
  shows "completeSuggestion conn server sid request cb st
           = (Inr sid, st\<lparr>requests := requests st @ [ResolveRequest (completionItem_pr pr)]\<rparr>)"
  using assms by (simp add: completeSuggestion_def Let_def)

lemma complete_some:
  assumes "suggestionCache st (server_id server) = Some cache"
    and "map_of (suggestionMap cache) sid = Some pr" and "\<not> isResolved pr"
    and "completionItemResolve conn (completionItem_pr pr) = Inr (Some item)"
  shows "completeSuggestion conn server sid request cb st
           = (Inr sid,
              st\<lparr>requests := requests st @ [ResolveRequest (completionItem_pr pr)],
                 suggestions := (suggestions st)
                    [sid := resolveSuggestion item (suggestions st ! sid) request cb],
                 suggestionCache := (suggestionCache st)(server_id server \<mapsto>
                    cache\<lparr>suggestionMap := set_resolved sid (suggestionMap cache)\<rparr>)\<rparr>)"
  using assms by (simp add: completeSuggestion_def Let_def)


text \<open>
  C9 (as amended). For a suggestion that the server's cache entry holds as not yet
  resolved, \<open>completeSuggestion\<close> sends one resolve request. When the server answers
  with an item, the adapter merges it into \<open>rightLabel\<close>, \<open>description\<close> and
  \<open>descriptionMarkdown\<close> of that suggestion alone and into nothing else (a
  conversion callback, when one is passed, is applied to the merged suggestion
  afterwards), marks the cache entry resolved, and a repeated selection sends no
  request. When the server answers null, the suggestion and the cache stay as they
  were. A suggestion that is marked resolved, or that the cache does not hold,
  causes no request and is returned unchanged.
\<close>

theorem completeSuggestion_lazy_resolution:
  assumes run: "completeSuggestion conn server sid request cb st = (res, st')"
  shows "((\<forall>cache. suggestionCache st (server_id server) = Some cache
             \<longrightarrow> map_of (suggestionMap cache) sid = None)
          \<longrightarrow> res = Inr sid \<and> st' = st)
    \<and> (\<forall>cache pr. suggestionCache st (server_id server) = Some cache
          \<and> map_of (suggestionMap cache) sid = Some pr \<and> sid < length (suggestions st) \<longrightarrow>
        (isResolved pr \<longrightarrow> res = Inr sid \<and> st' = st)
        \<and> (\<not> isResolved pr \<longrightarrow>
              requests st' = requests st @ [ResolveRequest (completionItem_pr pr)])
        \<and> (\<not> isResolved pr \<and> completionItemResolve conn (completionItem_pr pr) = Inr None \<longrightarrow>
              res = Inr sid \<and> suggestions st' = suggestions st
              \<and> suggestionCache st' = suggestionCache st)
        \<and> (\<forall>item. \<not> isResolved pr
               \<and> completionItemResolve conn (completionItem_pr pr) = Inr (Some item) \<longrightarrow>
              res = Inr sid
              \<and> (\<forall>i. i \<noteq> sid \<longrightarrow> suggestions st' ! i = suggestions st ! i)
              \<and> (cb = None \<longrightarrow>
                   suggestions st' ! sid = applyDetailsToSuggestion item (suggestions st ! sid)
                   \<and> (\<exists>r d m. suggestions st' ! sid
                         = (suggestions st ! sid)\<lparr>rightLabel := r, description := d,
                                                   descriptionMarkdown := m\<rparr>))
              \<and> (\<forall>f. cb = Some f \<longrightarrow>
                   suggestions st' ! sid
                     = f item (applyDetailsToSuggestion item (suggestions st ! sid)) request)
              \<and> (\<exists>cache'. suggestionCache st' (server_id server) = Some cache'
                    \<and> map_of (suggestionMap cache') sid = Some (pr\<lparr>isResolved := True\<rparr>))
              \<and> completeSuggestion conn server sid request cb st' = (Inr sid, st')))"
proof -
  have absent: "(\<forall>cache. suggestionCache st (server_id server) = Some cache
             \<longrightarrow> map_of (suggestionMap cache) sid = None)
          \<longrightarrow> res = Inr sid \<and> st' = st"
    using complete_absent[of st server sid conn request cb] run by auto
  have present: "(isResolved pr \<longrightarrow> res = Inr sid \<and> st' = st)
        \<and> (\<not> isResolved pr \<longrightarrow>
              requests st' = requests st @ [ResolveRequest (completionItem_pr pr)])
        \<and> (\<not> isResolved pr \<and> completionItemResolve conn (completionItem_pr pr) = Inr None \<longrightarrow>
              res = Inr sid \<and> suggestions st' = suggestions st
              \<and> suggestionCache st' = suggestionCache st)
        \<and> (\<forall>item. \<not> isResolved pr
               \<and> completionItemResolve conn (completionItem_pr pr) = Inr (Some item) \<longrightarrow>
              res = Inr sid
              \<and> (\<forall>i. i \<noteq> sid \<longrightarrow> suggestions st' ! i = suggestions st ! i)
              \<and> (cb = None \<longrightarrow>
                   suggestions st' ! sid = applyDetailsToSuggestion item (suggestions st ! sid)
                   \<and> (\<exists>r d m. suggestions st' ! sid
                         = (suggestions st ! sid)\<lparr>rightLabel := r, description := d,
                                                   descriptionMarkdown := m\<rparr>))
              \<and> (\<forall>f. cb = Some f \<longrightarrow>
                   suggestions st' ! sid
                     = f item (applyDetailsToSuggestion item (suggestions st ! sid)) request)
              \<and> (\<exists>cache'. suggestionCache st' (server_id server) = Some cache'
                    \<and> map_of (suggestionMap cache') sid = Some (pr\<lparr>isResolved := True\<rparr>))
              \<and> completeSuggestion conn server sid request cb st' = (Inr sid, st'))"
    if cached: "suggestionCache st (server_id server) = Some cache"
      and entry: "map_of (suggestionMap cache) sid = Some pr"
      and alloc: "sid < length (suggestions st)" for cache pr
  proof -
    have 1: "isResolved pr \<longrightarrow> res = Inr sid \<and> st' = st"
      using complete_resolved[OF cached entry] run by auto
    have 2: "\<not> isResolved pr \<longrightarrow>
            requests st' = requests st @ [ResolveRequest (completionItem_pr pr)]"
      using run cached entry
      by (auto simp: completeSuggestion_def Let_def split: sum.splits option.splits)
    have 3: "\<not> isResolved pr \<and> completionItemResolve conn (completionItem_pr pr) = Inr None \<longrightarrow>
            res = Inr sid \<and> suggestions st' = suggestions st
            \<and> suggestionCache st' = suggestionCache st"
      using complete_null[OF cached entry] run by auto
    have 4: "\<not> isResolved pr
               \<and> completionItemResolve conn (completionItem_pr pr) = Inr (Some item) \<longrightarrow>
            res = Inr sid
            \<and> (\<forall>i. i \<noteq> sid \<longrightarrow> suggestions st' ! i = suggestions st ! i)
            \<and> (cb = None \<longrightarrow>
                 suggestions st' ! sid = applyDetailsToSuggestion item (suggestions st ! sid)
                 \<and> (\<exists>r d m. suggestions st' ! sid
                       = (suggestions st ! sid)\<lparr>rightLabel := r, description := d,
                                                 descriptionMarkdown := m\<rparr>))
            \<and> (\<forall>f. cb = Some f \<longrightarrow>
                 suggestions st' ! sid
                   = f item (applyDetailsToSuggestion item (suggestions st ! sid)) request)
            \<and> (\<exists>cache'. suggestionCache st' (server_id server) = Some cache'
                  \<and> map_of (suggestionMap cache') sid = Some (pr\<lparr>isResolved := True\<rparr>))
            \<and> completeSuggestion conn server sid request cb st' = (Inr sid, st')" for item
    proof (intro impI)
      assume a: "\<not> isResolved pr
                   \<and> completionItemResolve conn (completionItem_pr pr) = Inr (Some item)"
      let ?cache' = "cache\<lparr>suggestionMap := set_resolved sid (suggestionMap cache)\<rparr>"
      have st': "st' = st\<lparr>requests := requests st @ [ResolveRequest (completionItem_pr pr)],
                   suggestions := (suggestions st)
                      [sid := resolveSuggestion item (suggestions st ! sid) request cb],
                   suggestionCache := (suggestionCache st)(server_id server \<mapsto> ?cache')\<rparr>"
        and res: "res = Inr sid"
        using complete_some[OF cached entry, of conn item request cb] a run by auto
      have c': "suggestionCache st' (server_id server) = Some ?cache'" by (simp add: st')
      have e': "map_of (suggestionMap ?cache') sid = Some (pr\<lparr>isResolved := True\<rparr>)"
        by (simp add: set_resolved_lookup entry)
      have again: "completeSuggestion conn server sid request cb st' = (Inr sid, st')"
        by (rule complete_resolved[OF c' e']) simp
      have at: "suggestions st' ! sid = resolveSuggestion item (suggestions st ! sid) request cb"
        using alloc by (simp add: st')
      have others: "\<forall>i. i \<noteq> sid \<longrightarrow> suggestions st' ! i = suggestions st ! i"
        by (simp add: st')
      have none: "cb = None \<longrightarrow>
                 suggestions st' ! sid = applyDetailsToSuggestion item (suggestions st ! sid)
                 \<and> (\<exists>r d m. suggestions st' ! sid
                       = (suggestions st ! sid)\<lparr>rightLabel := r, description := d,
                                                 descriptionMarkdown := m\<rparr>)"
        using applyDetails_frame[of item "suggestions st ! sid"]
        by (auto simp: at resolveSuggestion_def)
      have some: "\<forall>f. cb = Some f \<longrightarrow>
                 suggestions st' ! sid
                   = f item (applyDetailsToSuggestion item (suggestions st ! sid)) request"
        by (simp add: at resolveSuggestion_def)
      from res others none some c' e' again
      show "res = Inr sid
            \<and> (\<forall>i. i \<noteq> sid \<longrightarrow> suggestions st' ! i = suggestions st ! i)
            \<and> (cb = None \<longrightarrow>
                 suggestions st' ! sid = applyDetailsToSuggestion item (suggestions st ! sid)
                 \<and> (\<exists>r d m. suggestions st' ! sid
                       = (suggestions st ! sid)\<lparr>rightLabel := r, description := d,
                                                 descriptionMarkdown := m\<rparr>))
            \<and> (\<forall>f. cb = Some f \<longrightarrow>
                 suggestions st' ! sid
                   = f item (applyDetailsToSuggestion item (suggestions st ! sid)) request)
            \<and> (\<exists>cache'. suggestionCache st' (server_id server) = Some cache'
                  \<and> map_of (suggestionMap cache') sid = Some (pr\<lparr>isResolved := True\<rparr>))
            \<and> completeSuggestion conn server sid request cb st' = (Inr sid, st')"
        by blast
    qed
    show ?thesis
      apply (intro conjI allI)
         apply (rule 1)
        apply (rule 2)
       apply (rule 3)
      apply (rule 4)
      done
  qed
  show ?thesis
  proof (rule conjI)
    show "(\<forall>cache. suggestionCache st (server_id server) = Some cache
             \<longrightarrow> map_of (suggestionMap cache) sid = None)
          \<longrightarrow> res = Inr sid \<and> st' = st"
      by (rule absent)
  next
    show "\<forall>cache pr. suggestionCache st (server_id server) = Some cache
          \<and> map_of (suggestionMap cache) sid = Some pr \<and> sid < length (suggestions st) \<longrightarrow>
        (isResolved pr \<longrightarrow> res = Inr sid \<and> st' = st)
        \<and> (\<not> isResolved pr \<longrightarrow>
              requests st' = requests st @ [ResolveRequest (completionItem_pr pr)])
        \<and> (\<not> isResolved pr \<and> completionItemResolve conn (completionItem_pr pr) = Inr None \<longrightarrow>
              res = Inr sid \<and> suggestions st' = suggestions st
              \<and> suggestionCache st' = suggestionCache st)
        \<and> (\<forall>item. \<not> isResolved pr
               \<and> completionItemResolve conn (completionItem_pr pr) = Inr (Some item) \<longrightarrow>
              res = Inr sid
              \<and> (\<forall>i. i \<noteq> sid \<longrightarrow> suggestions st' ! i = suggestions st ! i)
              \<and> (cb = None \<longrightarrow>
                   suggestions st' ! sid = applyDetailsToSuggestion item (suggestions st ! sid)
                   \<and> (\<exists>r d m. suggestions st' ! sid
                         = (suggestions st ! sid)\<lparr>rightLabel := r, description := d,
                                                   descriptionMarkdown := m\<rparr>))
              \<and> (\<forall>f. cb = Some f \<longrightarrow>
                   suggestions st' ! sid
                     = f item (applyDetailsToSuggestion item (suggestions st ! sid)) request)
              \<and> (\<exists>cache'. suggestionCache st' (server_id server) = Some cache'
                    \<and> map_of (suggestionMap cache') sid = Some (pr\<lparr>isResolved := True\<rparr>))
              \<and> completeSuggestion conn server sid request cb st' = (Inr sid, st'))"
    proof (intro allI impI)
      fix cache pr
      assume h: "suggestionCache st (server_id server) = Some cache
          \<and> map_of (suggestionMap cache) sid = Some pr \<and> sid < length (suggestions st)"
      from h have h1: "suggestionCache st (server_id server) = Some cache"
        and h2: "map_of (suggestionMap cache) sid = Some pr"
        and h3: "sid < length (suggestions st)"
        by simp_all
      show "(isResolved pr \<longrightarrow> res = Inr sid \<and> st' = st)
        \<and> (\<not> isResolved pr \<longrightarrow>
              requests st' = requests st @ [ResolveRequest (completionItem_pr pr)])
        \<and> (\<not> isResolved pr \<and> completionItemResolve conn (completionItem_pr pr) = Inr None \<longrightarrow>
              res = Inr sid \<and> suggestions st' = suggestions st
              \<and> suggestionCache st' = suggestionCache st)
        \<and> (\<forall>item. \<not> isResolved pr
               \<and> completionItemResolve conn (completionItem_pr pr) = Inr (Some item) \<longrightarrow>
              res = Inr sid
              \<and> (\<forall>i. i \<noteq> sid \<longrightarrow> suggestions st' ! i = suggestions st ! i)
              \<and> (cb = None \<longrightarrow>
                   suggestions st' ! sid = applyDetailsToSuggestion item (suggestions st ! sid)
                   \<and> (\<exists>r d m. suggestions st' ! sid
                         = (suggestions st ! sid)\<lparr>rightLabel := r, description := d,
                                                   descriptionMarkdown := m\<rparr>))
              \<and> (\<forall>f. cb = Some f \<longrightarrow>
                   suggestions st' ! sid
                     = f item (applyDetailsToSuggestion item (suggestions st ! sid)) request)
              \<and> (\<exists>cache'. suggestionCache st' (server_id server) = Some cache'
                    \<and> map_of (suggestionMap cache') sid = Some (pr\<lparr>isResolved := True\<rparr>))
              \<and> completeSuggestion conn server sid request cb st' = (Inr sid, st'))"
        by (rule present[OF h1 h2 h3])
    qed
  qed
qed


theorem completeSuggestion_lazy_resolution_witness:
  "completeSuggestion (demo_connection (Inr None)) demo_server 0 demo_request None
       demo_empty_adapter = (Inr 0, demo_empty_adapter)
   \<and> (\<exists>st'. completeSuggestion (demo_connection (Inr (Some demo_resolved_item))) demo_server 0
               demo_request None demo_cached_adapter = (Inr 0, st')
          \<and> requests st' = [ResolveRequest demo_item]
          \<and> text_sg (suggestions st' ! 0) = Some ''forEach''
          \<and> rightLabel (suggestions st' ! 0) = Some ''(method) forEach(): void''
          \<and> completeSuggestion (demo_connection (Inr (Some demo_resolved_item))) demo_server 0
               demo_request None st' = (Inr 0, st'))
   \<and> (\<exists>st'. completeSuggestion (demo_connection (Inr None)) demo_server 0
               demo_request None demo_cached_adapter = (Inr 0, st')
          \<and> requests st' = [ResolveRequest demo_item]
          \<and> suggestions st' = suggestions demo_cached_adapter
          \<and> suggestionCache st' = suggestionCache demo_cached_adapter)
   \<and> (\<exists>st'. completeSuggestion (demo_connection (Inr (Some demo_resolved_item))) demo_server 0
               demo_request (Some (\<lambda>item s r. s\<lparr>text_sg := insertText item\<rparr>))
               demo_cached_adapter = (Inr 0, st')
          \<and> text_sg (suggestions st' ! 0) = Some ''somethingElse'')"
proof -
  let ?entry = "\<lparr>isIncomplete = False, triggerPoint = Point 3 7, originalBufferPoint = Point 3 9,
         triggerChar = [], suggestionMap = [(0, \<lparr>completionItem_pr = demo_item, isResolved = False\<rparr>)]\<rparr>"
  let ?pr = "\<lparr>completionItem_pr = demo_item, isResolved = False\<rparr>"
  have cached: "suggestionCache demo_cached_adapter (server_id demo_server) = Some ?entry"
    by (simp add: demo_cached_adapter_def demo_server_def)
  have entry: "map_of (suggestionMap ?entry) 0 = Some ?pr" by simp
  have alloc: "(0::nat) < length (suggestions demo_cached_adapter)"
    by (simp add: demo_cached_adapter_def)
  have unres: "\<not> isResolved ?pr" by simp
  have sg0: "suggestions demo_cached_adapter ! 0
      = completionItemToSuggestion demo_item empty_suggestion demo_request 5.1 False None"
    by (simp add: demo_cached_adapter_def)
  have txt0: "text_sg (suggestions demo_cached_adapter ! 0) = Some ''forEach''"
    unfolding sg0
    by (simp add: completionItemToSuggestion_def applyCompletionItemToSuggestion_def
          applyDetailsToSuggestion_def applySnippetToSuggestion_def demo_item_def
          empty_suggestion_def or_else_def Let_def)

  \<comment> \<open>a suggestion the cache does not hold\<close>
  obtain resA stA where runA: "completeSuggestion (demo_connection (Inr None)) demo_server 0
        demo_request None demo_empty_adapter = (resA, stA)"
    by (cases "completeSuggestion (demo_connection (Inr None)) demo_server 0
        demo_request None demo_empty_adapter")
  have absent: "\<forall>cache. suggestionCache demo_empty_adapter (server_id demo_server) = Some cache
             \<longrightarrow> map_of (suggestionMap cache) 0 = None"
    by (simp add: demo_empty_adapter_def)
  from completeSuggestion_lazy_resolution[OF runA] absent
  have "resA = Inr 0 \<and> stA = demo_empty_adapter" by blast
  with runA have A: "completeSuggestion (demo_connection (Inr None)) demo_server 0 demo_request None
       demo_empty_adapter = (Inr 0, demo_empty_adapter)" by simp

  \<comment> \<open>the server answers with an item, no callback\<close>
  let ?conn = "demo_connection (Inr (Some demo_resolved_item))"
  obtain resB stB where runB: "completeSuggestion ?conn demo_server 0
        demo_request None demo_cached_adapter = (resB, stB)"
    by (cases "completeSuggestion ?conn demo_server 0 demo_request None demo_cached_adapter")
  have ansB: "completionItemResolve ?conn (completionItem_pr ?pr) = Inr (Some demo_resolved_item)"
    by (simp add: demo_connection_def)
  from completeSuggestion_lazy_resolution[OF runB] cached entry alloc
  have factsB: "(\<not> isResolved ?pr \<longrightarrow>
              requests stB = requests demo_cached_adapter @ [ResolveRequest (completionItem_pr ?pr)])
        \<and> (\<forall>item. \<not> isResolved ?pr
               \<and> completionItemResolve ?conn (completionItem_pr ?pr) = Inr (Some item) \<longrightarrow>
              resB = Inr 0
              \<and> (None = (None :: CompletionItemAdjuster option) \<longrightarrow>
                   suggestions stB ! 0 = applyDetailsToSuggestion item (suggestions demo_cached_adapter ! 0)
                   \<and> (\<exists>r d m. suggestions stB ! 0
                         = (suggestions demo_cached_adapter ! 0)\<lparr>rightLabel := r, description := d,
                                                   descriptionMarkdown := m\<rparr>))
              \<and> completeSuggestion ?conn demo_server 0 demo_request None stB = (Inr 0, stB))"
    by blast
  from factsB unres have reqB: "requests stB = [ResolveRequest demo_item]"
    by (simp add: demo_cached_adapter_def)
  from factsB unres ansB have resB: "resB = Inr 0"
    and againB: "completeSuggestion ?conn demo_server 0 demo_request None stB = (Inr 0, stB)"
    and eqB: "suggestions stB ! 0
                = applyDetailsToSuggestion demo_resolved_item (suggestions demo_cached_adapter ! 0)"
    and frameB: "\<exists>r d m. suggestions stB ! 0
                   = (suggestions demo_cached_adapter ! 0)\<lparr>rightLabel := r, description := d,
                                                            descriptionMarkdown := m\<rparr>"
    by blast+
  from frameB txt0 have txtB: "text_sg (suggestions stB ! 0) = Some ''forEach''" by auto
  have rlB: "rightLabel (suggestions stB ! 0) = Some ''(method) forEach(): void''"
    unfolding eqB
    by (simp add: applyDetailsToSuggestion_def demo_resolved_item_def Let_def)
  from runB resB reqB txtB rlB againB
  have B: "\<exists>st'. completeSuggestion ?conn demo_server 0 demo_request None demo_cached_adapter
                 = (Inr 0, st')
          \<and> requests st' = [ResolveRequest demo_item]
          \<and> text_sg (suggestions st' ! 0) = Some ''forEach''
          \<and> rightLabel (suggestions st' ! 0) = Some ''(method) forEach(): void''
          \<and> completeSuggestion ?conn demo_server 0 demo_request None st' = (Inr 0, st')"
    by blast

  \<comment> \<open>the server answers null\<close>
  let ?null = "demo_connection (Inr None)"
  obtain resC stC where runC: "completeSuggestion ?null demo_server 0
        demo_request None demo_cached_adapter = (resC, stC)"
    by (cases "completeSuggestion ?null demo_server 0 demo_request None demo_cached_adapter")
  have ansC: "completionItemResolve ?null (completionItem_pr ?pr) = Inr None"
    by (simp add: demo_connection_def)
  from completeSuggestion_lazy_resolution[OF runC] cached entry alloc
  have factsC: "(\<not> isResolved ?pr \<longrightarrow>
              requests stC = requests demo_cached_adapter @ [ResolveRequest (completionItem_pr ?pr)])
        \<and> (\<not> isResolved ?pr \<and> completionItemResolve ?null (completionItem_pr ?pr) = Inr None \<longrightarrow>
              resC = Inr 0 \<and> suggestions stC = suggestions demo_cached_adapter
              \<and> suggestionCache stC = suggestionCache demo_cached_adapter)"
    by blast
  from factsC unres have reqC: "requests stC = [ResolveRequest demo_item]"
    by (simp add: demo_cached_adapter_def)
  from factsC unres ansC have restC: "resC = Inr 0 \<and> suggestions stC = suggestions demo_cached_adapter
              \<and> suggestionCache stC = suggestionCache demo_cached_adapter"
    by blast
  from runC reqC restC
  have C: "\<exists>st'. completeSuggestion ?null demo_server 0 demo_request None demo_cached_adapter
                 = (Inr 0, st')
          \<and> requests st' = [ResolveRequest demo_item]
          \<and> suggestions st' = suggestions demo_cached_adapter
          \<and> suggestionCache st' = suggestionCache demo_cached_adapter"
    by blast

  \<comment> \<open>a callback is applied after the merge\<close>
  let ?f = "\<lambda>item s (r :: SuggestionsRequestedEvent). s\<lparr>text_sg := insertText item\<rparr>"
  obtain resD stD where runD: "completeSuggestion ?conn demo_server 0
        demo_request (Some ?f) demo_cached_adapter = (resD, stD)"
    by (cases "completeSuggestion ?conn demo_server 0 demo_request (Some ?f) demo_cached_adapter")
  from completeSuggestion_lazy_resolution[OF runD] cached entry alloc
  have factsD: "\<forall>item. \<not> isResolved ?pr
               \<and> completionItemResolve ?conn (completionItem_pr ?pr) = Inr (Some item) \<longrightarrow>
              resD = Inr 0
              \<and> (\<forall>f. Some ?f = Some f \<longrightarrow>
                   suggestions stD ! 0
                     = f item (applyDetailsToSuggestion item (suggestions demo_cached_adapter ! 0))
                         demo_request)"
    by blast
  from factsD unres ansB have resD: "resD = Inr 0"
    and atD: "suggestions stD ! 0
                = ?f demo_resolved_item
                    (applyDetailsToSuggestion demo_resolved_item (suggestions demo_cached_adapter ! 0))
                    demo_request"
    by blast+
  have txtD: "text_sg (suggestions stD ! 0) = Some ''somethingElse''"
    unfolding atD by (simp add: demo_resolved_item_def)
  from runD resD txtD
  have D: "\<exists>st'. completeSuggestion ?conn demo_server 0 demo_request (Some ?f) demo_cached_adapter
                 = (Inr 0, st')
          \<and> text_sg (suggestions st' ! 0) = Some ''somethingElse''"
    by blast
  from A B C D show ?thesis by blast
qed


text \<open>
  With a server that answers a resolve request with null, selecting the same
  cached suggestion twice sends two resolve requests: the entry is not marked
  resolved.
\<close>

theorem completeSuggestion_null_answer_counterexample:
  "requests (snd (completeSuggestion (demo_connection (Inr None)) demo_server 0 demo_request None
      (snd (completeSuggestion (demo_connection (Inr None)) demo_server 0 demo_request None
         demo_cached_adapter))))
     = [ResolveRequest demo_item, ResolveRequest demo_item]"
  by (simp add: completeSuggestion_def demo_connection_def demo_server_def demo_cached_adapter_def
        Let_def)


section \<open>Properties of the diagnostics pipeline\<close>


text \<open>The message made for a retained diagnostic does not depend on the adapter state.\<close>

lemma transform_suppressed:
  "suppressed D ws path d \<Longrightarrow> transformOrIgnoreDiagnosticMessage P D ws path d st = Inr (None, st)"
  by (simp add: transformOrIgnoreDiagnosticMessage_def Let_def)

lemma transform_retained:
  assumes "\<not> suppressed D ws path d"
    and "transformOrIgnoreDiagnosticMessage P D ws path d st = Inr (r, st1)"
  shows "\<exists>m. r = Some m
           \<and> (\<forall>st0. \<exists>s. transformOrIgnoreDiagnosticMessage P D ws path d st0 = Inr (Some m, s))
           \<and> st1 = (if code_truthy (code_diag d)
                    then addIntentionsForLinterMessage ws path m (code_toString (the (code_diag d))) d st
                    else st)"
  using assms
  by (auto simp: transformOrIgnoreDiagnosticMessage_def Let_def split: sum.splits)

lemma transform_Inr_cases:
  assumes "transformOrIgnoreDiagnosticMessage P D ws path d st = Inr (r, st1)"
  shows "(suppressed D ws path d \<and> r = None \<and> st1 = st)
       \<or> (\<not> suppressed D ws path d \<and> (\<exists>m. r = Some m))"
  using assms
  by (auto simp: transformOrIgnoreDiagnosticMessage_def Let_def split: sum.splits if_splits)



lemma map_set_fst:
  "map fst (map_set k v m) = (if k \<in> fst ` set m then map fst m else map fst m @ [k])"
proof (induction m)
  case Nil
  show ?case by simp
next
  case (Cons p m)
  obtain k' v' where p: "p = (k', v')" by (cases p)
  show ?case
  proof (cases "k' = k")
    case True
    then show ?thesis unfolding p by simp
  next
    case False
    then show ?thesis unfolding p using Cons.IH by (cases "k \<in> fst ` set m") simp_all
  qed
qed

lemma map_set_keys: "set (map fst (map_set k v m)) = insert k (set (map fst m))"
  unfolding map_set_fst by (cases "k \<in> fst ` set m") auto

lemma map_set_values: "set (map snd (map_set k v m)) \<subseteq> insert v (set (map snd m))"
proof (induction m)
  case Nil
  show ?case by simp
next
  case (Cons p m)
  obtain k' v' where p: "p = (k', v')" by (cases p)
  show ?case
  proof (cases "k' = k")
    case True
    then show ?thesis unfolding p by auto
  next
    case False
    then show ?thesis unfolding p using Cons.IH by auto
  qed
qed

lemma capture_loop_Cons:
  assumes "capture_loop P D ws path (d # ds) loc st = Inr (loc', st')"
  shows "(suppressed D ws path d \<and> capture_loop P D ws path ds loc st = Inr (loc', st'))
    \<or> (\<not> suppressed D ws path d \<and>
         (\<exists>m. (\<forall>st0. \<exists>s. transformOrIgnoreDiagnosticMessage P D ws path d st0 = Inr (Some m, s))
            \<and> capture_loop P D ws path ds
                 (loc\<lparr>codeActionRange :=
                            (case codeActionRange loc of
                               None \<Rightarrow> Some (location_position m)
                             | Some r \<Rightarrow> Some (range_union r (location_position m))),
                         retainedDiagnostics := retainedDiagnostics loc @ [d],
                         diagnosticMap_local :=
                            map_set (getDiagnosticKey d) (snd (getMessageKey m)) (diagnosticMap_local loc),
                         codeMap := map_set (fst (getMessageKey m)) d (codeMap loc),
                         messages := messages loc @ [snd (getMessageKey m)]\<rparr>)
                 (share_key ws path m (snd (getMessageKey m))
                    (if code_truthy (code_diag d)
                     then addIntentionsForLinterMessage ws path m (code_toString (the (code_diag d))) d st
                     else st))
               = Inr (loc', st')))"
proof (cases "transformOrIgnoreDiagnosticMessage P D ws path d st")
  case (Inl e)
  then show ?thesis using assms by simp
next
  case (Inr p)
  obtain r st1 where p: "p = (r, st1)" by (cases p)
  from transform_Inr_cases[OF Inr[unfolded p]]
  show ?thesis
  proof
    assume a: "suppressed D ws path d \<and> r = None \<and> st1 = st"
    then show ?thesis using assms Inr p by simp
  next
    assume b: "\<not> suppressed D ws path d \<and> (\<exists>m. r = Some m)"
    then have ns: "\<not> suppressed D ws path d" by simp
    from transform_retained[OF ns Inr[unfolded p]]
    obtain m where m: "r = Some m"
      and ind: "\<forall>st0. \<exists>s. transformOrIgnoreDiagnosticMessage P D ws path d st0 = Inr (Some m, s)"
      and s1: "st1 = (if code_truthy (code_diag d)
                    then addIntentionsForLinterMessage ws path m (code_toString (the (code_diag d))) d st
                    else st)"
      by blast
    have eq: "capture_loop P D ws path (d # ds) loc st
          = capture_loop P D ws path ds
                 (loc\<lparr>codeActionRange :=
                            (case codeActionRange loc of
                               None \<Rightarrow> Some (location_position m)
                             | Some r \<Rightarrow> Some (range_union r (location_position m))),
                         retainedDiagnostics := retainedDiagnostics loc @ [d],
                         diagnosticMap_local :=
                            map_set (getDiagnosticKey d) (snd (getMessageKey m)) (diagnosticMap_local loc),
                         codeMap := map_set (fst (getMessageKey m)) d (codeMap loc),
                         messages := messages loc @ [snd (getMessageKey m)]\<rparr>)
                 (share_key ws path m (snd (getMessageKey m)) st1)"
      using Inr p m by (simp add: Let_def case_prod_beta)
    have "capture_loop P D ws path ds
                 (loc\<lparr>codeActionRange :=
                            (case codeActionRange loc of
                               None \<Rightarrow> Some (location_position m)
                             | Some r \<Rightarrow> Some (range_union r (location_position m))),
                         retainedDiagnostics := retainedDiagnostics loc @ [d],
                         diagnosticMap_local :=
                            map_set (getDiagnosticKey d) (snd (getMessageKey m)) (diagnosticMap_local loc),
                         codeMap := map_set (fst (getMessageKey m)) d (codeMap loc),
                         messages := messages loc @ [snd (getMessageKey m)]\<rparr>)
                 (share_key ws path m (snd (getMessageKey m)) st1)
            = Inr (loc', st')"
      using assms unfolding eq .
    with ns ind show ?thesis unfolding s1 by blast
  qed
qed



lemma getMessageKey_position:
  "location_position (snd (getMessageKey m)) = location_position m"
  by (simp add: getMessageKey_def updateMessageKey_def Let_def split: option.splits prod.splits)

lemma capture_loop_retained:
  assumes "capture_loop P D ws path ds loc st = Inr (loc', st')"
  shows "retainedDiagnostics loc'
           = retainedDiagnostics loc @ filter (\<lambda>d. \<not> suppressed D ws path d) ds"
  using assms
proof (induction ds arbitrary: loc st)
  case Nil
  then show ?case by simp
next
  case (Cons d ds)
  from capture_loop_Cons[OF Cons.prems] show ?case
  proof (elim disjE conjE exE)
    assume "suppressed D ws path d" and "capture_loop P D ws path ds loc st = Inr (loc', st')"
    then show ?thesis using Cons.IH by simp
  next
    fix m
    assume ns: "\<not> suppressed D ws path d"
      and run: "capture_loop P D ws path ds
                 (loc\<lparr>codeActionRange :=
                            (case codeActionRange loc of
                               None \<Rightarrow> Some (location_position m)
                             | Some r \<Rightarrow> Some (range_union r (location_position m))),
                         retainedDiagnostics := retainedDiagnostics loc @ [d],
                         diagnosticMap_local :=
                            map_set (getDiagnosticKey d) (snd (getMessageKey m)) (diagnosticMap_local loc),
                         codeMap := map_set (fst (getMessageKey m)) d (codeMap loc),
                         messages := messages loc @ [snd (getMessageKey m)]\<rparr>)
                 (share_key ws path m (snd (getMessageKey m))
                    (if code_truthy (code_diag d)
                     then addIntentionsForLinterMessage ws path m (code_toString (the (code_diag d))) d st
                     else st))
               = Inr (loc', st')"
    from Cons.IH[OF run] ns show ?thesis by simp
  qed
qed

lemma capture_loop_messages:
  assumes "capture_loop P D ws path ds loc st = Inr (loc', st')"
  shows "\<exists>ms. messages loc' = messages loc @ ms
           \<and> list_all2 (\<lambda>m d. \<exists>m0. (\<forall>st0. \<exists>s. transformOrIgnoreDiagnosticMessage P D ws path d st0
                                               = Inr (Some m0, s))
                                 \<and> m = snd (getMessageKey m0))
                 ms (filter (\<lambda>d. \<not> suppressed D ws path d) ds)
           \<and> codeActionRange loc'
               = foldl (\<lambda>acc r. Some (case acc of None \<Rightarrow> r | Some a \<Rightarrow> range_union a r))
                   (codeActionRange loc) (map location_position ms)"
  using assms
proof (induction ds arbitrary: loc st)
  case Nil
  then show ?case by simp
next
  case (Cons d ds)
  from capture_loop_Cons[OF Cons.prems] show ?case
  proof (elim disjE conjE exE)
    assume "suppressed D ws path d" and "capture_loop P D ws path ds loc st = Inr (loc', st')"
    then show ?thesis using Cons.IH by simp
  next
    fix m
    let ?loc1 = "loc\<lparr>codeActionRange :=
                            (case codeActionRange loc of
                               None \<Rightarrow> Some (location_position m)
                             | Some r \<Rightarrow> Some (range_union r (location_position m))),
                         retainedDiagnostics := retainedDiagnostics loc @ [d],
                         diagnosticMap_local :=
                            map_set (getDiagnosticKey d) (snd (getMessageKey m)) (diagnosticMap_local loc),
                         codeMap := map_set (fst (getMessageKey m)) d (codeMap loc),
                         messages := messages loc @ [snd (getMessageKey m)]\<rparr>"
    assume ns: "\<not> suppressed D ws path d"
      and ind: "\<forall>st0. \<exists>s. transformOrIgnoreDiagnosticMessage P D ws path d st0 = Inr (Some m, s)"
      and run: "capture_loop P D ws path ds ?loc1
                 (share_key ws path m (snd (getMessageKey m))
                    (if code_truthy (code_diag d)
                     then addIntentionsForLinterMessage ws path m (code_toString (the (code_diag d))) d st
                     else st))
               = Inr (loc', st')"
    from Cons.IH[OF run] obtain ms where
      ms: "messages loc' = messages ?loc1 @ ms"
      and rel: "list_all2 (\<lambda>m d. \<exists>m0. (\<forall>st0. \<exists>s. transformOrIgnoreDiagnosticMessage P D ws path d st0
                                               = Inr (Some m0, s))
                                 \<and> m = snd (getMessageKey m0))
                 ms (filter (\<lambda>d. \<not> suppressed D ws path d) ds)"
      and car: "codeActionRange loc'
               = foldl (\<lambda>acc r. Some (case acc of None \<Rightarrow> r | Some a \<Rightarrow> range_union a r))
                   (codeActionRange ?loc1) (map location_position ms)"
      by blast
    let ?ms = "snd (getMessageKey m) # ms"
    have 1: "messages loc' = messages loc @ ?ms" using ms by simp
    have 2: "list_all2 (\<lambda>m d. \<exists>m0. (\<forall>st0. \<exists>s. transformOrIgnoreDiagnosticMessage P D ws path d st0
                                               = Inr (Some m0, s))
                                 \<and> m = snd (getMessageKey m0))
                 ?ms (filter (\<lambda>d. \<not> suppressed D ws path d) (d # ds))"
      using rel ns ind by auto
    have 3: "codeActionRange loc'
               = foldl (\<lambda>acc r. Some (case acc of None \<Rightarrow> r | Some a \<Rightarrow> range_union a r))
                   (codeActionRange loc) (map location_position ?ms)"
      unfolding car by (simp add: getMessageKey_position split: option.splits)
    from 1 2 3 show ?thesis by blast
  qed
qed

lemma capture_loop_maps:
  assumes "capture_loop P D ws path ds loc st = Inr (loc', st')"
  shows "snd ` set (codeMap loc') \<subseteq> snd ` set (codeMap loc)
            \<union> {d \<in> set ds. \<not> suppressed D ws path d}"
    and "fst ` set (diagnosticMap_local loc') = fst ` set (diagnosticMap_local loc)
            \<union> getDiagnosticKey ` {d \<in> set ds. \<not> suppressed D ws path d}"
    and "snd ` set (diagnosticMap_local loc') \<subseteq> snd ` set (diagnosticMap_local loc)
            \<union> set (messages loc')"
  using assms
proof (induction ds arbitrary: loc st)
  case Nil
  { case 1 then show ?case by simp }
  { case 2 then show ?case by simp }
  { case 3 then show ?case by simp }
next
  case (Cons d ds)
  {
    case 1
    from capture_loop_Cons[OF 1] show ?case
    proof (elim disjE conjE exE)
      assume "suppressed D ws path d" and "capture_loop P D ws path ds loc st = Inr (loc', st')"
      then show ?thesis using Cons.IH(1) by auto
    next
      fix m
      let ?loc1 = "loc\<lparr>codeActionRange :=
                            (case codeActionRange loc of
                               None \<Rightarrow> Some (location_position m)
                             | Some r \<Rightarrow> Some (range_union r (location_position m))),
                         retainedDiagnostics := retainedDiagnostics loc @ [d],
                         diagnosticMap_local :=
                            map_set (getDiagnosticKey d) (snd (getMessageKey m)) (diagnosticMap_local loc),
                         codeMap := map_set (fst (getMessageKey m)) d (codeMap loc),
                         messages := messages loc @ [snd (getMessageKey m)]\<rparr>"
      assume ns: "\<not> suppressed D ws path d"
        and run: "capture_loop P D ws path ds ?loc1
                 (share_key ws path m (snd (getMessageKey m))
                    (if code_truthy (code_diag d)
                     then addIntentionsForLinterMessage ws path m (code_toString (the (code_diag d))) d st
                     else st))
               = Inr (loc', st')"
      have "snd ` set (codeMap ?loc1) \<subseteq> insert d (snd ` set (codeMap loc))"
        using map_set_values[of "fst (getMessageKey m)" d "codeMap loc"] by simp
      with Cons.IH(1)[OF run] ns show ?thesis by auto
    qed
  }
  {
    case 2
    from capture_loop_Cons[OF 2] show ?case
    proof (elim disjE conjE exE)
      assume "suppressed D ws path d" and "capture_loop P D ws path ds loc st = Inr (loc', st')"
      then show ?thesis using Cons.IH(2) by auto
    next
      fix m
      let ?loc1 = "loc\<lparr>codeActionRange :=
                            (case codeActionRange loc of
                               None \<Rightarrow> Some (location_position m)
                             | Some r \<Rightarrow> Some (range_union r (location_position m))),
                         retainedDiagnostics := retainedDiagnostics loc @ [d],
                         diagnosticMap_local :=
                            map_set (getDiagnosticKey d) (snd (getMessageKey m)) (diagnosticMap_local loc),
                         codeMap := map_set (fst (getMessageKey m)) d (codeMap loc),
                         messages := messages loc @ [snd (getMessageKey m)]\<rparr>"
      assume ns: "\<not> suppressed D ws path d"
        and run: "capture_loop P D ws path ds ?loc1
                 (share_key ws path m (snd (getMessageKey m))
                    (if code_truthy (code_diag d)
                     then addIntentionsForLinterMessage ws path m (code_toString (the (code_diag d))) d st
                     else st))
               = Inr (loc', st')"
      have "fst ` set (diagnosticMap_local ?loc1)
              = insert (getDiagnosticKey d) (fst ` set (diagnosticMap_local loc))"
        using map_set_keys[of "getDiagnosticKey d" "snd (getMessageKey m)" "diagnosticMap_local loc"]
        by simp
      with Cons.IH(2)[OF run] ns show ?thesis by auto
    qed
  }
  {
    case 3
    from capture_loop_Cons[OF 3] show ?case
    proof (elim disjE conjE exE)
      assume "suppressed D ws path d" and "capture_loop P D ws path ds loc st = Inr (loc', st')"
      then show ?thesis using Cons.IH(3) by auto
    next
      fix m
      let ?loc1 = "loc\<lparr>codeActionRange :=
                            (case codeActionRange loc of
                               None \<Rightarrow> Some (location_position m)
                             | Some r \<Rightarrow> Some (range_union r (location_position m))),
                         retainedDiagnostics := retainedDiagnostics loc @ [d],
                         diagnosticMap_local :=
                            map_set (getDiagnosticKey d) (snd (getMessageKey m)) (diagnosticMap_local loc),
                         codeMap := map_set (fst (getMessageKey m)) d (codeMap loc),
                         messages := messages loc @ [snd (getMessageKey m)]\<rparr>"
      assume ns: "\<not> suppressed D ws path d"
        and run: "capture_loop P D ws path ds ?loc1
                 (share_key ws path m (snd (getMessageKey m))
                    (if code_truthy (code_diag d)
                     then addIntentionsForLinterMessage ws path m (code_toString (the (code_diag d))) d st
                     else st))
               = Inr (loc', st')"
      let ?new = "map_set (getDiagnosticKey d) (snd (getMessageKey m)) (diagnosticMap_local loc)"
      have a: "snd ` set ?new \<subseteq> insert (snd (getMessageKey m)) (snd ` set (diagnosticMap_local loc))"
        using map_set_values[of "getDiagnosticKey d" "snd (getMessageKey m)" "diagnosticMap_local loc"]
        by simp
      from capture_loop_messages[OF run] have mem: "snd (getMessageKey m) \<in> set (messages loc')"
        by auto
      have ih: "snd ` set (diagnosticMap_local loc') \<subseteq> snd ` set ?new \<union> set (messages loc')"
        using Cons.IH(3)[OF run] by simp
      show ?thesis
      proof
        fix x
        assume "x \<in> snd ` set (diagnosticMap_local loc')"
        with ih have "x \<in> snd ` set ?new \<or> x \<in> set (messages loc')" by (meson UnE subsetD)
        then show "x \<in> snd ` set (diagnosticMap_local loc) \<union> set (messages loc')"
        proof
          assume "x \<in> snd ` set ?new"
          with a have "x = snd (getMessageKey m) \<or> x \<in> snd ` set (diagnosticMap_local loc)"
            by (meson insertE subsetD)
          with mem show ?thesis by (meson UnI1 UnI2)
        next
          assume "x \<in> set (messages loc')"
          then show ?thesis by (rule UnI2)
        qed
      qed
    qed
  }
qed



lemma registered_add_for_editor:
  "registered_diagnostics (add_for_editor r b d e' ixs) e
     = registered_diagnostics ixs e @ (if e = e' then [d] else [])"
  by (simp add: registered_diagnostics_def add_for_editor_def intentions_add_def
        new_EditorIntentionsList_def Let_def split: option.splits)

lemma registered_fold_add:
  assumes "distinct es"
  shows "registered_diagnostics (fold (add_for_editor r b d) es ixs) e
           = registered_diagnostics ixs e @ (if e \<in> set es then [d] else [])"
  using assms
proof (induction es arbitrary: ixs)
  case Nil
  then show ?case by simp
next
  case (Cons a es)
  then have "a \<notin> set es" and "distinct es" by simp_all
  then show ?case using Cons.IH[of "add_for_editor r b d a ixs"]
    by (auto simp: registered_add_for_editor)
qed

lemma registered_onLinterMessageAdded:
  assumes "distinct (findAllTextEditorsForPath ws path)"
  shows "registered_diagnostics (onLinterMessageAdded ws path m c d ixs) e
           = registered_diagnostics ixs e
               @ (if e \<in> set (findAllTextEditorsForPath ws path) then [d] else [])"
  unfolding onLinterMessageAdded_def Let_def by (rule registered_fold_add[OF assms])

lemma share_key_None:
  "intentionsManager st = None \<Longrightarrow> share_key ws path m k st = st"
  by (simp add: share_key_def)

lemma registered_key_editor:
  "registered_diagnostics (key_editor m k a ixs) e = registered_diagnostics ixs e"
  by (cases "ixs a") (auto simp: registered_diagnostics_def key_editor_def keyed_entries_def)

lemma registered_keyed:
  "registered_diagnostics (fold (key_editor m k) es ixs) e = registered_diagnostics ixs e"
proof (induction es arbitrary: ixs)
  case Nil
  show ?case by simp
next
  case (Cons a es)
  have "registered_diagnostics (fold (key_editor m k) (a # es) ixs) e
          = registered_diagnostics (fold (key_editor m k) es (key_editor m k a ixs)) e"
    by simp
  also have "\<dots> = registered_diagnostics (key_editor m k a ixs) e" by (rule Cons.IH)
  also have "\<dots> = registered_diagnostics ixs e" by (rule registered_key_editor)
  finally show ?case .
qed

lemma share_key_Some:
  assumes "intentionsManager st = Some ixs"
  shows "\<exists>ixs'. share_key ws path m k st = st\<lparr>intentionsManager := Some ixs'\<rparr>
           \<and> (\<forall>e. registered_diagnostics ixs' e = registered_diagnostics ixs e)"
proof -
  let ?ixs' = "fold (key_editor m k) (findAllTextEditorsForPath ws path) ixs"
  have "share_key ws path m k st = st\<lparr>intentionsManager := Some ?ixs'\<rparr>"
    using assms by (simp add: share_key_def)
  moreover have "\<forall>e. registered_diagnostics ?ixs' e = registered_diagnostics ixs e"
    using registered_keyed by blast
  ultimately show ?thesis by blast
qed

lemma capture_loop_no_manager:
  assumes "capture_loop P D ws path ds loc st = Inr (loc', st')"
    and "intentionsManager st = None"
  shows "st' = st"
  using assms
proof (induction ds arbitrary: loc st)
  case Nil
  then show ?case by simp
next
  case (Cons d ds)
  from capture_loop_Cons[OF Cons.prems(1)] show ?case
  proof (elim disjE conjE exE)
    assume "suppressed D ws path d" and "capture_loop P D ws path ds loc st = Inr (loc', st')"
    then show ?thesis using Cons.IH Cons.prems(2) by blast
  next
    fix m
    let ?loc1 = "loc\<lparr>codeActionRange :=
                            (case codeActionRange loc of
                               None \<Rightarrow> Some (location_position m)
                             | Some r \<Rightarrow> Some (range_union r (location_position m))),
                         retainedDiagnostics := retainedDiagnostics loc @ [d],
                         diagnosticMap_local :=
                            map_set (getDiagnosticKey d) (snd (getMessageKey m)) (diagnosticMap_local loc),
                         codeMap := map_set (fst (getMessageKey m)) d (codeMap loc),
                         messages := messages loc @ [snd (getMessageKey m)]\<rparr>"
    assume run: "capture_loop P D ws path ds ?loc1
                 (share_key ws path m (snd (getMessageKey m))
                    (if code_truthy (code_diag d)
                     then addIntentionsForLinterMessage ws path m (code_toString (the (code_diag d))) d st
                     else st))
               = Inr (loc', st')"
    have inner: "(if code_truthy (code_diag d)
                  then addIntentionsForLinterMessage ws path m (code_toString (the (code_diag d))) d st
                  else st) = st"
      using Cons.prems(2) by (simp add: addIntentionsForLinterMessage_def)
    have same: "share_key ws path m (snd (getMessageKey m)) st = st"
      using Cons.prems(2) by (rule share_key_None)
    from run[unfolded inner same] Cons.prems(2) show ?thesis by (rule Cons.IH)
  qed
qed

lemma capture_loop_manager:
  assumes "capture_loop P D ws path ds loc st = Inr (loc', st')"
    and "intentionsManager st = Some ixs"
    and dist: "distinct (findAllTextEditorsForPath ws path)"
  shows "\<exists>ixs'. st' = st\<lparr>intentionsManager := Some ixs'\<rparr>
           \<and> (\<forall>e. registered_diagnostics ixs' e
                   = registered_diagnostics ixs e
                       @ (if e \<in> set (findAllTextEditorsForPath ws path)
                          then filter (\<lambda>d. code_truthy (code_diag d))
                                 (filter (\<lambda>d. \<not> suppressed D ws path d) ds)
                          else []))"
  using assms(1,2)
proof (induction ds arbitrary: loc st ixs)
  case Nil
  then have "st' = st\<lparr>intentionsManager := Some ixs\<rparr>" by simp
  then show ?case by auto
next
  case (Cons d ds)
  from capture_loop_Cons[OF Cons.prems(1)] show ?case
  proof (elim disjE conjE exE)
    assume sup: "suppressed D ws path d"
      and run: "capture_loop P D ws path ds loc st = Inr (loc', st')"
    have f: "filter (\<lambda>d. \<not> suppressed D ws path d) (d # ds)
               = filter (\<lambda>d. \<not> suppressed D ws path d) ds"
      using sup by simp
    show ?thesis unfolding f by (rule Cons.IH[OF run Cons.prems(2)])
  next
    fix m
    let ?loc1 = "loc\<lparr>codeActionRange :=
                            (case codeActionRange loc of
                               None \<Rightarrow> Some (location_position m)
                             | Some r \<Rightarrow> Some (range_union r (location_position m))),
                         retainedDiagnostics := retainedDiagnostics loc @ [d],
                         diagnosticMap_local :=
                            map_set (getDiagnosticKey d) (snd (getMessageKey m)) (diagnosticMap_local loc),
                         codeMap := map_set (fst (getMessageKey m)) d (codeMap loc),
                         messages := messages loc @ [snd (getMessageKey m)]\<rparr>"
    let ?st1 = "(if code_truthy (code_diag d)
                  then addIntentionsForLinterMessage ws path m (code_toString (the (code_diag d))) d st
                  else st)"
    let ?st2 = "share_key ws path m (snd (getMessageKey m)) ?st1"
    assume ns: "\<not> suppressed D ws path d"
      and run: "capture_loop P D ws path ds ?loc1 ?st2 = Inr (loc', st')"
    let ?ixs1 = "(if code_truthy (code_diag d)
                  then onLinterMessageAdded ws path m (code_toString (the (code_diag d))) d ixs
                  else ixs)"
    have st1: "?st1 = st\<lparr>intentionsManager := Some ?ixs1\<rparr>"
      using Cons.prems(2) by (simp add: addIntentionsForLinterMessage_def)
    have im1: "intentionsManager ?st1 = Some ?ixs1" by (subst st1) simp
    from share_key_Some[OF im1, of ws path m "snd (getMessageKey m)"] obtain ixs2 where
      st2: "?st2 = ?st1\<lparr>intentionsManager := Some ixs2\<rparr>"
      and reg2: "\<forall>e. registered_diagnostics ixs2 e = registered_diagnostics ?ixs1 e"
      by blast
    have im2: "intentionsManager ?st2 = Some ixs2" by (subst st2) simp
    from Cons.IH[OF run im2] obtain ixs' where
      s': "st' = ?st2\<lparr>intentionsManager := Some ixs'\<rparr>"
      and reg0: "\<forall>e. registered_diagnostics ixs' e
                   = registered_diagnostics ixs2 e
                       @ (if e \<in> set (findAllTextEditorsForPath ws path)
                          then filter (\<lambda>d. code_truthy (code_diag d))
                                 (filter (\<lambda>d. \<not> suppressed D ws path d) ds)
                          else [])"
      by blast
    have reg: "\<forall>e. registered_diagnostics ixs' e
                   = registered_diagnostics ?ixs1 e
                       @ (if e \<in> set (findAllTextEditorsForPath ws path)
                          then filter (\<lambda>d. code_truthy (code_diag d))
                                 (filter (\<lambda>d. \<not> suppressed D ws path d) ds)
                          else [])"
      using reg0 reg2 by simp
    have a: "st' = st\<lparr>intentionsManager := Some ixs'\<rparr>"
      by (subst s', subst st2, subst st1) simp
    have b: "registered_diagnostics ixs' e
                   = registered_diagnostics ixs e
                       @ (if e \<in> set (findAllTextEditorsForPath ws path)
                          then filter (\<lambda>d. code_truthy (code_diag d))
                                 (filter (\<lambda>d. \<not> suppressed D ws path d) (d # ds))
                          else [])" for e
      using reg ns by (simp add: registered_onLinterMessageAdded[OF dist])
    from a b show ?thesis by blast
  qed
qed



lemma registered_clear:
  "registered_diagnostics (clearLinterIntentions e' ixs) e
     = (if e = e' then [] else registered_diagnostics ixs e)"
  by (simp add: registered_diagnostics_def clearLinterIntentions_def new_EditorIntentionsList_def
        split: option.splits)

lemma registered_fold_clear:
  "registered_diagnostics (fold clearLinterIntentions es ixs) e
     = (if e \<in> set es then [] else registered_diagnostics ixs e)"
  by (induction es arbitrary: ixs) (auto simp: registered_clear)

lemma prepare_fields:
  "intentionsManager (prepare_editor params e st)
     = map_option (clearLinterIntentions e) (intentionsManager st)"
  "diagnosticMap (prepare_editor params e st) = diagnosticMap st"
  "lsDiagnosticMap (prepare_editor params e st) = lsDiagnosticMap st"
  "indies (prepare_editor params e st) = indies st"
  "published (prepare_editor params e st) = published st"
  by (simp_all add: prepare_editor_def)

lemma fold_prepare_manager:
  "intentionsManager (fold (prepare_editor params) es st)
     = map_option (fold clearLinterIntentions es) (intentionsManager st)"
proof (induction es arbitrary: st)
  case Nil
  show ?case by (cases "intentionsManager st") simp_all
next
  case (Cons a es)
  show ?case by (cases "intentionsManager st") (simp_all add: Cons.IH prepare_fields)
qed

lemma fold_prepare:
  "diagnosticMap (fold (prepare_editor params) es st) = diagnosticMap st"
  "lsDiagnosticMap (fold (prepare_editor params) es st) = lsDiagnosticMap st"
  "indies (fold (prepare_editor params) es st) = indies st"
  "published (fold (prepare_editor params) es st) = published st"
  by (induction es arbitrary: st) (simp_all add: prepare_fields)

lemma distinct_findAll:
  assumes "distinct (map fst ws)"
  shows "distinct (findAllTextEditorsForPath ws path)"
  unfolding findAllTextEditorsForPath_def using assms by (rule distinct_map_filter)

lemma capture_loop_fields:
  assumes "capture_loop P D ws path ds loc st = Inr (loc', st')"
  shows "diagnosticMap st' = diagnosticMap st \<and> lsDiagnosticMap st' = lsDiagnosticMap st
           \<and> indies st' = indies st \<and> published st' = published st"
proof (cases "intentionsManager st")
  case None
  then show ?thesis using capture_loop_no_manager[OF assms] by simp
next
  case (Some ixs)
  have "\<exists>ixs'. st' = st\<lparr>intentionsManager := Some ixs'\<rparr>"
    using assms Some
  proof (induction ds arbitrary: loc st ixs)
    case Nil
    then have "st' = st\<lparr>intentionsManager := Some ixs\<rparr>" by simp
    then show ?case by blast
  next
    case (Cons d ds)
    from capture_loop_Cons[OF Cons.prems(1)] show ?case
    proof (elim disjE conjE exE)
      assume "capture_loop P D ws path ds loc st = Inr (loc', st')"
      then show ?thesis using Cons.IH Cons.prems(2) by blast
    next
      fix m
      let ?loc1 = "loc\<lparr>codeActionRange :=
                            (case codeActionRange loc of
                               None \<Rightarrow> Some (location_position m)
                             | Some r \<Rightarrow> Some (range_union r (location_position m))),
                         retainedDiagnostics := retainedDiagnostics loc @ [d],
                         diagnosticMap_local :=
                            map_set (getDiagnosticKey d) (snd (getMessageKey m)) (diagnosticMap_local loc),
                         codeMap := map_set (fst (getMessageKey m)) d (codeMap loc),
                         messages := messages loc @ [snd (getMessageKey m)]\<rparr>"
      let ?st1 = "(if code_truthy (code_diag d)
                  then addIntentionsForLinterMessage ws path m (code_toString (the (code_diag d))) d st
                  else st)"
      let ?st2 = "share_key ws path m (snd (getMessageKey m)) ?st1"
      assume run: "capture_loop P D ws path ds ?loc1 ?st2 = Inr (loc', st')"
      let ?ixs1 = "(if code_truthy (code_diag d)
                  then onLinterMessageAdded ws path m (code_toString (the (code_diag d))) d ixs
                  else ixs)"
      have st1: "?st1 = st\<lparr>intentionsManager := Some ?ixs1\<rparr>"
        using Cons.prems(2) by (simp add: addIntentionsForLinterMessage_def)
      have im1: "intentionsManager ?st1 = Some ?ixs1" by (subst st1) simp
      from share_key_Some[OF im1, of ws path m "snd (getMessageKey m)"] obtain ixs2 where
        st2: "?st2 = ?st1\<lparr>intentionsManager := Some ixs2\<rparr>"
        by blast
      have im2: "intentionsManager ?st2 = Some ixs2" by (subst st2) simp
      from Cons.IH[OF run im2] obtain ixs' where
        s': "st' = ?st2\<lparr>intentionsManager := Some ixs'\<rparr>" by blast
      have "st' = st\<lparr>intentionsManager := Some ixs'\<rparr>"
        by (subst s', subst st2, subst st1) simp
      then show ?thesis by blast
    qed
  qed
  then show ?thesis by auto
qed

lemma capture_loop_locals_any_state:
  assumes "capture_loop P D ws path ds loc st = Inr (loc', st')"
  shows "\<exists>s. capture_loop P D ws path ds loc st0 = Inr (loc', s)"
  using assms
proof (induction ds arbitrary: loc st st0)
  case Nil
  then show ?case by simp
next
  case (Cons d ds)
  from capture_loop_Cons[OF Cons.prems] show ?case
  proof (elim disjE conjE exE)
    assume sup: "suppressed D ws path d"
      and run: "capture_loop P D ws path ds loc st = Inr (loc', st')"
    from Cons.IH[OF run, of st0] obtain s where "capture_loop P D ws path ds loc st0 = Inr (loc', s)"
      by blast
    then show ?thesis using transform_suppressed[OF sup, of P st0] by auto
  next
    fix m
    let ?loc1 = "loc\<lparr>codeActionRange :=
                            (case codeActionRange loc of
                               None \<Rightarrow> Some (location_position m)
                             | Some r \<Rightarrow> Some (range_union r (location_position m))),
                         retainedDiagnostics := retainedDiagnostics loc @ [d],
                         diagnosticMap_local :=
                            map_set (getDiagnosticKey d) (snd (getMessageKey m)) (diagnosticMap_local loc),
                         codeMap := map_set (fst (getMessageKey m)) d (codeMap loc),
                         messages := messages loc @ [snd (getMessageKey m)]\<rparr>"
    assume ind: "\<forall>st0. \<exists>s. transformOrIgnoreDiagnosticMessage P D ws path d st0 = Inr (Some m, s)"
      and run: "capture_loop P D ws path ds ?loc1
                 (share_key ws path m (snd (getMessageKey m))
                    (if code_truthy (code_diag d)
                     then addIntentionsForLinterMessage ws path m (code_toString (the (code_diag d))) d st
                     else st))
               = Inr (loc', st')"
    from ind obtain s1 where t: "transformOrIgnoreDiagnosticMessage P D ws path d st0 = Inr (Some m, s1)"
      by blast
    from Cons.IH[OF run, of "share_key ws path m (snd (getMessageKey m)) s1"] obtain s where
      r: "capture_loop P D ws path ds ?loc1 (share_key ws path m (snd (getMessageKey m)) s1)
            = Inr (loc', s)"
      by blast
    have "capture_loop P D ws path (d # ds) loc st0
            = capture_loop P D ws path ds ?loc1 (share_key ws path m (snd (getMessageKey m)) s1)"
      using t by (simp add: Let_def case_prod_beta)
    then show ?thesis using r by simp
  qed
qed



lemma captureDiagnostics_unfold:
  assumes run: "captureDiagnostics P D ws params st = Inr (loc, st')"
    and path: "uriToPath P (uri params) = Inr path"
  shows "\<exists>st2. capture_loop P D ws path (diagnostics params) initial_locals
                 (fold (prepare_editor params) (findAllTextEditorsForPath ws path) st)
               = Inr (loc, st2)
           \<and> st' = st2\<lparr>diagnosticMap := (diagnosticMap st2)(path \<mapsto> messages loc),
                        lsDiagnosticMap := (lsDiagnosticMap st2)(path \<mapsto> codeMap loc),
                        published := published st2
                           @ map (\<lambda>i. (i, path, messages loc)) (indies st2)\<rparr>"
  using run unfolding captureDiagnostics_def path
  by (auto simp: Let_def split: sum.splits)

text \<open>A batch whose diagnostics carry no related information is captured without error.\<close>

lemma demo_uri_path: "uriToPath demo_js ''file:///proj/src/a.ts'' = Inr ''/proj/src/a.ts''"
  by code_simp

lemma capture_loop_returns:
  assumes "\<forall>d \<in> set ds. relatedInformation d = None"
  shows "\<exists>loc' st'. capture_loop P D ws path ds loc st = Inr (loc', st')"
  using assms
proof (induction ds arbitrary: loc st)
  case Nil
  show ?case by simp
next
  case (Cons d ds)
  then have r: "relatedInformation d = None" and rest: "\<forall>d \<in> set ds. relatedInformation d = None"
    by simp_all
  have "\<exists>m s. transformOrIgnoreDiagnosticMessage P D ws path d st = Inr (m, s)"
    using r
    by (simp add: transformOrIgnoreDiagnosticMessage_def lsDiagnosticToV2Message_def
          relatedInformationToReference_def Let_def)
  then obtain m s where t: "transformOrIgnoreDiagnosticMessage P D ws path d st = Inr (m, s)"
    by blast
  show ?case
  proof (cases m)
    case None
    then show ?thesis using t Cons.IH[OF rest, of loc s] by simp
  next
    case (Some lm)
    obtain k keyed where g: "getMessageKey lm = (k, keyed)" by (cases "getMessageKey lm")
    show ?thesis using t Some g
        Cons.IH[OF rest, of "loc\<lparr>codeActionRange :=
                            (case codeActionRange loc of
                               None \<Rightarrow> Some (location_position lm)
                             | Some r \<Rightarrow> Some (range_union r (location_position lm))),
                         retainedDiagnostics := retainedDiagnostics loc @ [d],
                         diagnosticMap_local :=
                            map_set (getDiagnosticKey d) keyed (diagnosticMap_local loc),
                         codeMap := map_set k d (codeMap loc),
                         messages := messages loc @ [keyed]\<rparr>" "share_key ws path lm keyed s"]
      by (simp add: Let_def)
  qed
qed

lemma captureDiagnostics_returns:
  assumes "uriToPath P (uri params) = Inr path"
    and "\<forall>d \<in> set (diagnostics params). relatedInformation d = None"
  shows "\<exists>loc st'. captureDiagnostics P D ws params st = Inr (loc, st')"
proof -
  from capture_loop_returns[OF assms(2)] obtain loc' s where
    "capture_loop P D ws path (diagnostics params) initial_locals
       (fold (prepare_editor params) (findAllTextEditorsForPath ws path) st) = Inr (loc', s)"
    by blast
  then show ?thesis unfolding captureDiagnostics_def assms(1) by (simp add: Let_def)
qed

lemma demo_editors: "findAllTextEditorsForPath demo_workspace ''/proj/src/a.ts'' = [0]"
  by (simp add: findAllTextEditorsForPath_def demo_workspace_def)

lemma demo_suppressed:
  "suppressed (Some demo_delegate) demo_workspace ''/proj/src/a.ts'' d
     = (source_diag d = Some ''noise'')"
  by (simp add: suppressed_def demo_delegate_def)

lemma demo_batch_run:
  "\<exists>loc st'. captureDiagnostics demo_js (Some demo_delegate) demo_workspace demo_batch demo_linter
                = Inr (loc, st')"
  by (rule captureDiagnostics_returns[of _ _ "''/proj/src/a.ts''"])
     (simp_all add: demo_batch_def demo_uri_path demo_diagnostic_def demo_noise_def
        demo_uncoded_def)

text \<open>
  C5 (as amended). In a run of \<open>captureDiagnostics\<close> the retained diagnostics are
  exactly those of the batch for which the suppression test fails, in order.
  Each retained diagnostic yields one lint message, carrying its key, and the
  code-action range is the union of the messages' ranges; these messages are what
  is stored for the path and sent to every attached consumer. The values of the
  key-to-diagnostic map are retained diagnostics, the keys of the key-to-message
  map are the identity keys of the retained diagnostics and its values are
  published messages. With an intentions manager, the index of every editor open
  on the path is cleared and then holds exactly the retained diagnostics that
  have a truthy code; other editors keep their index. So a suppressed diagnostic
  appears nowhere, and a retained one is in the index when it has a code.
\<close>

theorem captureDiagnostics_drops_suppressed:
  assumes run: "captureDiagnostics P D ws params st = Inr (loc, st')"
    and path: "uriToPath P (uri params) = Inr path"
    and dist: "distinct (map fst ws)"
  shows "retainedDiagnostics loc = filter (\<lambda>d. \<not> suppressed D ws path d) (diagnostics params)
    \<and> list_all2 (\<lambda>m d. \<exists>m0. (\<forall>st0. \<exists>s. transformOrIgnoreDiagnosticMessage P D ws path d st0
                                         = Inr (Some m0, s))
                           \<and> m = snd (getMessageKey m0))
          (messages loc) (retainedDiagnostics loc)
    \<and> codeActionRange loc
         = foldl (\<lambda>acc r. Some (case acc of None \<Rightarrow> r | Some a \<Rightarrow> range_union a r))
             None (map location_position (messages loc))
    \<and> diagnosticMap st' path = Some (messages loc)
    \<and> lsDiagnosticMap st' path = Some (codeMap loc)
    \<and> published st' = published st @ map (\<lambda>i. (i, path, messages loc)) (indies st)
    \<and> snd ` set (codeMap loc) \<subseteq> set (retainedDiagnostics loc)
    \<and> fst ` set (diagnosticMap_local loc) = getDiagnosticKey ` set (retainedDiagnostics loc)
    \<and> snd ` set (diagnosticMap_local loc) \<subseteq> set (messages loc)
    \<and> (intentionsManager st = None \<longrightarrow> intentionsManager st' = None)
    \<and> (\<forall>ixs. intentionsManager st = Some ixs \<longrightarrow>
          (\<exists>ixs'. intentionsManager st' = Some ixs'
             \<and> (\<forall>e. registered_diagnostics ixs' e
                     = (if e \<in> set (findAllTextEditorsForPath ws path)
                        then filter (\<lambda>d. code_truthy (code_diag d)) (retainedDiagnostics loc)
                        else registered_diagnostics ixs e))))"
proof -
  let ?es = "findAllTextEditorsForPath ws path"
  let ?st1 = "fold (prepare_editor params) ?es st"
  from captureDiagnostics_unfold[OF run path] obtain st2 where
    loop: "capture_loop P D ws path (diagnostics params) initial_locals ?st1 = Inr (loc, st2)"
    and st': "st' = st2\<lparr>diagnosticMap := (diagnosticMap st2)(path \<mapsto> messages loc),
                        lsDiagnosticMap := (lsDiagnosticMap st2)(path \<mapsto> codeMap loc),
                        published := published st2
                           @ map (\<lambda>i. (i, path, messages loc)) (indies st2)\<rparr>"
    by blast
  have d': "distinct ?es" by (rule distinct_findAll[OF dist])
  have 1: "retainedDiagnostics loc = filter (\<lambda>d. \<not> suppressed D ws path d) (diagnostics params)"
    using capture_loop_retained[OF loop] by (simp add: initial_locals_def)
  from capture_loop_messages[OF loop] obtain ms where
    ms: "messages loc = messages initial_locals @ ms"
    and rel: "list_all2 (\<lambda>m d. \<exists>m0. (\<forall>st0. \<exists>s. transformOrIgnoreDiagnosticMessage P D ws path d st0
                                         = Inr (Some m0, s))
                           \<and> m = snd (getMessageKey m0))
          ms (filter (\<lambda>d. \<not> suppressed D ws path d) (diagnostics params))"
    and car: "codeActionRange loc
         = foldl (\<lambda>acc r. Some (case acc of None \<Rightarrow> r | Some a \<Rightarrow> range_union a r))
             (codeActionRange initial_locals) (map location_position ms)"
    by blast
  have ms': "ms = messages loc" using ms by (simp add: initial_locals_def)
  have 2: "list_all2 (\<lambda>m d. \<exists>m0. (\<forall>st0. \<exists>s. transformOrIgnoreDiagnosticMessage P D ws path d st0
                                         = Inr (Some m0, s))
                           \<and> m = snd (getMessageKey m0))
          (messages loc) (retainedDiagnostics loc)"
    using rel unfolding ms' 1 .
  have 3: "codeActionRange loc
         = foldl (\<lambda>acc r. Some (case acc of None \<Rightarrow> r | Some a \<Rightarrow> range_union a r))
             None (map location_position (messages loc))"
    using car unfolding ms' by (simp add: initial_locals_def)
  note fields = capture_loop_fields[OF loop]
  have 4: "diagnosticMap st' path = Some (messages loc)" by (simp add: st')
  have 5: "lsDiagnosticMap st' path = Some (codeMap loc)" by (simp add: st')
  have 6: "published st' = published st @ map (\<lambda>i. (i, path, messages loc)) (indies st)"
    using fields by (simp add: st' fold_prepare)
  have ret_set: "{d \<in> set (diagnostics params). \<not> suppressed D ws path d}
                   = set (retainedDiagnostics loc)"
    unfolding 1 by auto
  have 7: "snd ` set (codeMap loc) \<subseteq> set (retainedDiagnostics loc)"
    using capture_loop_maps(1)[OF loop] unfolding ret_set by (simp add: initial_locals_def)
  have 8: "fst ` set (diagnosticMap_local loc) = getDiagnosticKey ` set (retainedDiagnostics loc)"
    using capture_loop_maps(2)[OF loop] unfolding ret_set by (simp add: initial_locals_def)
  have 9: "snd ` set (diagnosticMap_local loc) \<subseteq> set (messages loc)"
    using capture_loop_maps(3)[OF loop] by (simp add: initial_locals_def)
  have im': "intentionsManager st' = intentionsManager st2" by (simp add: st')
  have 10: "intentionsManager st = None \<longrightarrow> intentionsManager st' = None"
  proof
    assume n: "intentionsManager st = None"
    then have "intentionsManager ?st1 = None" by (simp add: fold_prepare_manager)
    from capture_loop_no_manager[OF loop this] show "intentionsManager st' = None"
      using im' \<open>intentionsManager ?st1 = None\<close> by simp
  qed
  have 11: "\<forall>ixs. intentionsManager st = Some ixs \<longrightarrow>
          (\<exists>ixs'. intentionsManager st' = Some ixs'
             \<and> (\<forall>e. registered_diagnostics ixs' e
                     = (if e \<in> set ?es
                        then filter (\<lambda>d. code_truthy (code_diag d)) (retainedDiagnostics loc)
                        else registered_diagnostics ixs e)))"
  proof (intro allI impI)
    fix ixs
    assume s: "intentionsManager st = Some ixs"
    let ?cleared = "fold clearLinterIntentions ?es ixs"
    have im1: "intentionsManager ?st1 = Some ?cleared" using s by (simp add: fold_prepare_manager)
    from capture_loop_manager[OF loop im1 d'] obtain ixs' where
      s2: "st2 = ?st1\<lparr>intentionsManager := Some ixs'\<rparr>"
      and reg: "\<forall>e. registered_diagnostics ixs' e
                   = registered_diagnostics ?cleared e
                       @ (if e \<in> set ?es
                          then filter (\<lambda>d. code_truthy (code_diag d))
                                 (filter (\<lambda>d. \<not> suppressed D ws path d) (diagnostics params))
                          else [])"
      by blast
    have a: "intentionsManager st' = Some ixs'" unfolding im' by (subst s2) simp
    have b: "registered_diagnostics ixs' e
                     = (if e \<in> set ?es
                        then filter (\<lambda>d. code_truthy (code_diag d)) (retainedDiagnostics loc)
                        else registered_diagnostics ixs e)" for e
      using reg unfolding 1 by (simp add: registered_fold_clear)
    from a b show "\<exists>ixs'. intentionsManager st' = Some ixs'
             \<and> (\<forall>e. registered_diagnostics ixs' e
                     = (if e \<in> set ?es
                        then filter (\<lambda>d. code_truthy (code_diag d)) (retainedDiagnostics loc)
                        else registered_diagnostics ixs e))"
      by blast
  qed
  show ?thesis
    apply (intro conjI)
              apply (rule 1)
             apply (rule 2)
            apply (rule 3)
           apply (rule 4)
          apply (rule 5)
         apply (rule 6)
        apply (rule 7)
       apply (rule 8)
      apply (rule 9)
     apply (rule 10)
    apply (rule 11)
    done
qed

text \<open>
  The theorem on a batch of three diagnostics, the second of which is suppressed:
  two messages are published, the suppressed diagnostic is in neither map, and the
  index of the editor open on the path holds the retained diagnostic that has a
  code.
\<close>

theorem captureDiagnostics_drops_suppressed_witness:
  "\<exists>loc st' ixs'.
      captureDiagnostics demo_js (Some demo_delegate) demo_workspace demo_batch demo_linter
        = Inr (loc, st')
    \<and> retainedDiagnostics loc = [demo_diagnostic, demo_uncoded]
    \<and> length (messages loc) = 2
    \<and> diagnosticMap st' ''/proj/src/a.ts'' = Some (messages loc)
    \<and> published st' = [(0, ''/proj/src/a.ts'', messages loc)]
    \<and> demo_noise \<notin> snd ` set (codeMap loc)
    \<and> getDiagnosticKey demo_noise \<notin> fst ` set (diagnosticMap_local loc)
    \<and> intentionsManager st' = Some ixs'
    \<and> registered_diagnostics ixs' 0 = [demo_diagnostic]
    \<and> registered_diagnostics ixs' 1 = []"
proof -
  obtain loc st' where
    run: "captureDiagnostics demo_js (Some demo_delegate) demo_workspace demo_batch demo_linter
            = Inr (loc, st')"
    using demo_batch_run by blast
  have path: "uriToPath demo_js (uri demo_batch) = Inr ''/proj/src/a.ts''"
    by (simp add: demo_batch_def demo_uri_path)
  have dist: "distinct (map fst demo_workspace)" by (simp add: demo_workspace_def)
  note th = captureDiagnostics_drops_suppressed[OF run path dist]
  have ret: "retainedDiagnostics loc = [demo_diagnostic, demo_uncoded]"
    using th
    by (simp add: demo_suppressed demo_batch_def demo_diagnostic_def demo_noise_def
          demo_uncoded_def)
  from th have "list_all2 (\<lambda>m d. \<exists>m0. (\<forall>st0. \<exists>s. transformOrIgnoreDiagnosticMessage demo_js
                     (Some demo_delegate) demo_workspace ''/proj/src/a.ts'' d st0
                                         = Inr (Some m0, s))
                           \<and> m = snd (getMessageKey m0))
          (messages loc) (retainedDiagnostics loc)"
    by blast
  then have len: "length (messages loc) = 2" using ret by (simp add: list_all2_lengthD)
  from th have dm: "diagnosticMap st' ''/proj/src/a.ts'' = Some (messages loc)" by blast
  from th have "published st' = published demo_linter
                  @ map (\<lambda>i. (i, ''/proj/src/a.ts'', messages loc)) (indies demo_linter)"
    by blast
  then have pub: "published st' = [(0, ''/proj/src/a.ts'', messages loc)]"
    by (simp add: demo_linter_def)
  have noise: "demo_noise \<noteq> demo_diagnostic" "demo_noise \<noteq> demo_uncoded"
    by (simp_all add: demo_noise_def demo_uncoded_def demo_diagnostic_def)
  from th have "snd ` set (codeMap loc) \<subseteq> set (retainedDiagnostics loc)" by blast
  then have cm: "demo_noise \<notin> snd ` set (codeMap loc)" using ret noise by auto
  have keys: "getDiagnosticKey demo_noise \<noteq> getDiagnosticKey demo_diagnostic"
    "getDiagnosticKey demo_noise \<noteq> getDiagnosticKey demo_uncoded"
    by (simp_all add: getDiagnosticKey_def demo_noise_def demo_uncoded_def demo_diagnostic_def)
  from th have "fst ` set (diagnosticMap_local loc)
                  = getDiagnosticKey ` set (retainedDiagnostics loc)"
    by blast
  then have km: "getDiagnosticKey demo_noise \<notin> fst ` set (diagnosticMap_local loc)"
    using ret keys by auto
  have im: "intentionsManager demo_linter = Some (\<lambda>_. None)" by (simp add: demo_linter_def)
  from th have "\<forall>ixs. intentionsManager demo_linter = Some ixs \<longrightarrow>
          (\<exists>ixs'. intentionsManager st' = Some ixs'
             \<and> (\<forall>e. registered_diagnostics ixs' e
                     = (if e \<in> set (findAllTextEditorsForPath demo_workspace ''/proj/src/a.ts'')
                        then filter (\<lambda>d. code_truthy (code_diag d)) (retainedDiagnostics loc)
                        else registered_diagnostics ixs e)))"
    by blast
  with im obtain ixs' where ix: "intentionsManager st' = Some ixs'"
    and reg: "\<forall>e. registered_diagnostics ixs' e
                     = (if e \<in> set (findAllTextEditorsForPath demo_workspace ''/proj/src/a.ts'')
                        then filter (\<lambda>d. code_truthy (code_diag d)) (retainedDiagnostics loc)
                        else registered_diagnostics (\<lambda>_. None) e)"
    by blast
  have r0: "registered_diagnostics ixs' 0 = [demo_diagnostic]"
    using reg ret
    by (simp add: demo_editors code_truthy_def demo_diagnostic_def demo_uncoded_def)
  have r1: "registered_diagnostics ixs' 1 = []"
    using reg by (simp add: demo_editors registered_diagnostics_def)
  from run ret len dm pub cm km ix r0 r1 show ?thesis by blast
qed

text \<open>
  A retained diagnostic without a code is published but not registered: with the
  file open in an editor and an intentions index present, the index of that editor
  is empty after the batch is captured.
\<close>

theorem captureDiagnostics_uncoded_not_registered_counterexample:
  "\<exists>loc st' ixs'.
      captureDiagnostics demo_js (Some demo_delegate) demo_workspace demo_uncoded_batch demo_linter
        = Inr (loc, st')
    \<and> \<not> suppressed (Some demo_delegate) demo_workspace ''/proj/src/a.ts'' demo_uncoded
    \<and> findAllTextEditorsForPath demo_workspace ''/proj/src/a.ts'' = [0]
    \<and> retainedDiagnostics loc = [demo_uncoded]
    \<and> length (messages loc) = 1
    \<and> published st' = [(0, ''/proj/src/a.ts'', messages loc)]
    \<and> intentionsManager st' = Some ixs'
    \<and> registered_diagnostics ixs' 0 = []"
proof -
  have path: "uriToPath demo_js (uri demo_uncoded_batch) = Inr ''/proj/src/a.ts''"
    by (simp add: demo_uncoded_batch_def demo_uri_path)
  have "\<exists>loc st'. captureDiagnostics demo_js (Some demo_delegate) demo_workspace
                     demo_uncoded_batch demo_linter = Inr (loc, st')"
    by (rule captureDiagnostics_returns[OF path])
       (simp add: demo_uncoded_batch_def demo_uncoded_def demo_diagnostic_def)
  then obtain loc st' where
    run: "captureDiagnostics demo_js (Some demo_delegate) demo_workspace demo_uncoded_batch
            demo_linter = Inr (loc, st')"
    by blast
  let ?st1 = "fold (prepare_editor demo_uncoded_batch)
                (findAllTextEditorsForPath demo_workspace ''/proj/src/a.ts'') demo_linter"
  from captureDiagnostics_unfold[OF run path] obtain st2 where
    loop: "capture_loop demo_js (Some demo_delegate) demo_workspace ''/proj/src/a.ts''
             (diagnostics demo_uncoded_batch) initial_locals ?st1 = Inr (loc, st2)"
    and st': "st' = st2\<lparr>diagnosticMap := (diagnosticMap st2)(''/proj/src/a.ts'' \<mapsto> messages loc),
                        lsDiagnosticMap := (lsDiagnosticMap st2)(''/proj/src/a.ts'' \<mapsto> codeMap loc),
                        published := published st2
                           @ map (\<lambda>i. (i, ''/proj/src/a.ts'', messages loc)) (indies st2)\<rparr>"
    by blast
  have ns: "\<not> suppressed (Some demo_delegate) demo_workspace ''/proj/src/a.ts'' demo_uncoded"
    by (simp add: demo_suppressed demo_uncoded_def demo_diagnostic_def)
  have ret: "retainedDiagnostics loc = [demo_uncoded]"
    using capture_loop_retained[OF loop] ns
    by (simp add: initial_locals_def demo_uncoded_batch_def)
  from capture_loop_messages[OF loop] obtain ms where
    ms: "messages loc = messages initial_locals @ ms"
    and rel: "list_all2 (\<lambda>m d. \<exists>m0. (\<forall>st0. \<exists>s. transformOrIgnoreDiagnosticMessage demo_js
                   (Some demo_delegate) demo_workspace ''/proj/src/a.ts'' d st0
                                               = Inr (Some m0, s))
                                 \<and> m = snd (getMessageKey m0))
                 ms (filter (\<lambda>d. \<not> suppressed (Some demo_delegate) demo_workspace
                                     ''/proj/src/a.ts'' d) (diagnostics demo_uncoded_batch))"
    by blast
  have "length ms = 1" using list_all2_lengthD[OF rel] ns by (simp add: demo_uncoded_batch_def)
  then have len: "length (messages loc) = 1" using ms by (simp add: initial_locals_def)
  have im1: "intentionsManager ?st1
               = Some (fold clearLinterIntentions
                         (findAllTextEditorsForPath demo_workspace ''/proj/src/a.ts'') (\<lambda>_. None))"
    by (simp add: fold_prepare_manager demo_linter_def)
  have d: "distinct (findAllTextEditorsForPath demo_workspace ''/proj/src/a.ts'')"
    by (simp add: demo_editors)
  from capture_loop_manager[OF loop im1 d] obtain ixs' where
    s2: "st2 = ?st1\<lparr>intentionsManager := Some ixs'\<rparr>"
    and reg: "\<forall>e. registered_diagnostics ixs' e
                   = registered_diagnostics (fold clearLinterIntentions
                         (findAllTextEditorsForPath demo_workspace ''/proj/src/a.ts'') (\<lambda>_. None)) e
                       @ (if e \<in> set (findAllTextEditorsForPath demo_workspace ''/proj/src/a.ts'')
                          then filter (\<lambda>d. code_truthy (code_diag d))
                                 (filter (\<lambda>d. \<not> suppressed (Some demo_delegate) demo_workspace
                                     ''/proj/src/a.ts'' d) (diagnostics demo_uncoded_batch))
                          else [])"
    by blast
  have ix: "intentionsManager st' = Some ixs'" unfolding st' by (subst s2) simp
  have r0: "registered_diagnostics ixs' 0 = []"
    using reg
    by (simp add: registered_clear demo_editors demo_uncoded_batch_def code_truthy_def
          demo_uncoded_def demo_suppressed)
  have pub: "published st' = [(0, ''/proj/src/a.ts'', messages loc)]"
    using capture_loop_fields[OF loop]
    by (simp add: st' fold_prepare demo_linter_def)
  from run ns demo_editors ret len pub ix r0 show ?thesis by blast
qed

lemma getDiagnosticKey_fields:
  assumes "message_diag d = message_diag d'" and "severity_diag d = severity_diag d'"
    and "code_diag d = code_diag d'" and "range_diag d = range_diag d'"
  shows "getDiagnosticKey d = getDiagnosticKey d'"
  using assms by (simp add: getDiagnosticKey_def)

text \<open>
  C4. The identity key of a diagnostic is determined by its message text,
  severity, code and range: two diagnostics that agree on these four have the same
  key, whatever their other fields. Submitting a batch to \<open>captureDiagnostics\<close> a
  second time, after the first submission has changed the adapter, computes the
  same retained diagnostics and the same keys as the first time.
\<close>

theorem diagnostic_identity_stable:
  "(message_diag d = message_diag d' \<and> severity_diag d = severity_diag d'
      \<and> code_diag d = code_diag d' \<and> range_diag d = range_diag d'
      \<longrightarrow> getDiagnosticKey d = getDiagnosticKey d')
   \<and> (captureDiagnostics P D ws params st = Inr (loc1, st1) \<longrightarrow>
        (\<exists>loc2 st2. captureDiagnostics P D ws params st1 = Inr (loc2, st2)
           \<and> map getDiagnosticKey (retainedDiagnostics loc2)
               = map getDiagnosticKey (retainedDiagnostics loc1)
           \<and> map fst (diagnosticMap_local loc2) = map fst (diagnosticMap_local loc1)))"
proof (intro conjI impI)
  assume "message_diag d = message_diag d' \<and> severity_diag d = severity_diag d'
      \<and> code_diag d = code_diag d' \<and> range_diag d = range_diag d'"
  then show "getDiagnosticKey d = getDiagnosticKey d'"
    using getDiagnosticKey_fields by blast
next
  assume run: "captureDiagnostics P D ws params st = Inr (loc1, st1)"
  then obtain path where path: "uriToPath P (uri params) = Inr path"
    by (cases "uriToPath P (uri params)") (simp_all add: captureDiagnostics_def)
  from captureDiagnostics_unfold[OF run path] obtain s where
    loop: "capture_loop P D ws path (diagnostics params) initial_locals
             (fold (prepare_editor params) (findAllTextEditorsForPath ws path) st) = Inr (loc1, s)"
    by blast
  from capture_loop_locals_any_state[OF loop,
      of "fold (prepare_editor params) (findAllTextEditorsForPath ws path) st1"]
  obtain s' where loop2: "capture_loop P D ws path (diagnostics params) initial_locals
             (fold (prepare_editor params) (findAllTextEditorsForPath ws path) st1) = Inr (loc1, s')"
    by blast
  have "\<exists>st2. captureDiagnostics P D ws params st1 = Inr (loc1, st2)"
    unfolding captureDiagnostics_def path using loop2 by (simp add: Let_def)
  then show "\<exists>loc2 st2. captureDiagnostics P D ws params st1 = Inr (loc2, st2)
           \<and> map getDiagnosticKey (retainedDiagnostics loc2)
               = map getDiagnosticKey (retainedDiagnostics loc1)
           \<and> map fst (diagnosticMap_local loc2) = map fst (diagnosticMap_local loc1)"
    by blast
qed

text \<open>
  The theorem on two diagnostics that differ in source and data only, and on a
  batch submitted twice.
\<close>

theorem diagnostic_identity_stable_witness:
  "getDiagnosticKey demo_diagnostic = getDiagnosticKey demo_relabelled
   \<and> demo_diagnostic \<noteq> demo_relabelled
   \<and> (\<exists>loc1 st1 loc2 st2.
         captureDiagnostics demo_js (Some demo_delegate) demo_workspace demo_batch demo_linter
           = Inr (loc1, st1)
       \<and> captureDiagnostics demo_js (Some demo_delegate) demo_workspace demo_batch st1
           = Inr (loc2, st2)
       \<and> map getDiagnosticKey (retainedDiagnostics loc2)
           = map getDiagnosticKey (retainedDiagnostics loc1)
       \<and> map fst (diagnosticMap_local loc2) = map fst (diagnosticMap_local loc1))"
proof -
  obtain loc1 st1 where
    run: "captureDiagnostics demo_js (Some demo_delegate) demo_workspace demo_batch demo_linter
            = Inr (loc1, st1)"
    using demo_batch_run by blast
  have fields: "message_diag demo_diagnostic = message_diag demo_relabelled
      \<and> severity_diag demo_diagnostic = severity_diag demo_relabelled
      \<and> code_diag demo_diagnostic = code_diag demo_relabelled
      \<and> range_diag demo_diagnostic = range_diag demo_relabelled"
    by (simp add: demo_relabelled_def)
  have differ: "demo_diagnostic \<noteq> demo_relabelled"
  proof
    assume "demo_diagnostic = demo_relabelled"
    then have "source_diag demo_diagnostic = source_diag demo_relabelled" by simp
    then show False by (simp add: demo_relabelled_def demo_diagnostic_def)
  qed
  note th = diagnostic_identity_stable[of demo_diagnostic demo_relabelled demo_js
      "Some demo_delegate" demo_workspace demo_batch demo_linter loc1 st1]
  from th fields have 1: "getDiagnosticKey demo_diagnostic = getDiagnosticKey demo_relabelled"
    by blast
  from th run obtain loc2 st2 where
    "captureDiagnostics demo_js (Some demo_delegate) demo_workspace demo_batch st1
           = Inr (loc2, st2)"
    "map getDiagnosticKey (retainedDiagnostics loc2)
           = map getDiagnosticKey (retainedDiagnostics loc1)"
    "map fst (diagnosticMap_local loc2) = map fst (diagnosticMap_local loc1)"
    by blast
  with run 1 differ show ?thesis by blast
qed

section \<open>Properties of path and URI conversion\<close>



lemma below16:
  assumes "(n::nat) < 16"
  shows "n \<in> {15, 14, 13, 12} \<or> n \<in> {11, 10, 9, 8} \<or> n \<in> {7, 6, 5, 4} \<or> n \<in> {3, 2, 1, 0}"
proof -
  from assms have "n = 15 \<or> n = 14 \<or> n = 13 \<or> n = 12 \<or> n = 11 \<or> n = 10 \<or> n = 9 \<or> n = 8
      \<or> n = 7 \<or> n = 6 \<or> n = 5 \<or> n = 4 \<or> n = 3 \<or> n = 2 \<or> n = 1 \<or> n = 0"
    by arith
  then show ?thesis by blast
qed

lemma hex_digit_cases:
  assumes "n < 16"
  shows "hex_digit n \<in> set ''0123456789ABCDEF''"
  using below16[OF assms] by (auto simp: hex_digit_def)

lemma of_char_div16: "(of_char c :: nat) div 16 < 16"
proof -
  have "(of_char c :: nat) < 256" by simp
  then show ?thesis by (simp add: less_mult_imp_div_less)
qed

lemma percent_byte_chars:
  "set (percent_byte c) \<subseteq> set ''%0123456789ABCDEF''"
  using hex_digit_cases[OF of_char_div16[of c]] hex_digit_cases[of "of_char c mod 16"]
  by (auto simp: percent_byte_def)

lemma kept_chars:
  "kept c \<Longrightarrow> c \<in> set ''abcdefghijklmnopqrstuvwxyzABCDEFGHIJKLMNOPQRSTUVWXYZ0123456789-_.!~*();/:@&=+$,'' \<or> c = CHR 0x27"
  by (auto simp: kept_def uriUnescaped_def uriReserved_def)


lemma ordinary_hex:
  "c \<in> set ''%0123456789ABCDEF'' \<Longrightarrow> ordinary c"
  by (auto simp: ordinary_def path_delimiter_def path_percent_encode_set_def c0_or_space_def)

lemma ordinary_percent_byte: "\<forall>x \<in> set (percent_byte c). ordinary x"
  using percent_byte_chars[of c] ordinary_hex by blast

lemma ordinary_kept:
  assumes "kept c" and "c \<noteq> CHR ''/''"
  shows "ordinary c"
proof -
  have "c \<in> set ''abcdefghijklmnopqrstuvwxyzABCDEFGHIJKLMNOPQRSTUVWXYZ0123456789-_.!~*();/:@&=+$,''
          \<or> c = CHR 0x27"
    using kept_chars[OF assms(1)] .
  then have "c = CHR ''/'' \<or> ordinary c"
    unfolding ordinary_def path_delimiter_def path_percent_encode_set_def c0_or_space_def
    apply (simp only: list.set insert_iff empty_iff)
    apply (elim disjE)
    apply simp_all
    done
  then show ?thesis using assms(2) by blast
qed

lemma kept_slash: "kept CHR ''/''"
  by (simp add: kept_def uriReserved_def)

lemma ordinary_enc1: "c \<noteq> CHR ''/'' \<Longrightarrow> \<forall>x \<in> set (enc1 c). ordinary x"
  using ordinary_percent_byte[of c] ordinary_kept[of c] by (auto simp: enc1_def)



lemma replace_chars_encodeURIComponent:
  assumes "\<And>c. cls c \<Longrightarrow> \<not> uriUnescaped c"
  shows "replace_chars cls js_encodeURIComponent s
           = Inr (concat (map (\<lambda>c. if cls c then percent_byte c else [c]) s))"
  using assms by (induction s) (auto simp: js_encodeURIComponent_def)

lemma hash_question_not_unescaped:
  "c = CHR ''#'' \<or> c = CHR ''?'' \<Longrightarrow> \<not> uriUnescaped c"
  by (auto simp: uriUnescaped_def)

lemma replace_after_encode_char:
  "concat (map (\<lambda>x. if x = CHR ''#'' \<or> x = CHR ''?'' then percent_byte x else [x])
       (if uriUnescaped c \<or> uriReserved c \<or> c = CHR ''#'' then [c] else percent_byte c))
     = enc1 c"
proof (cases "uriUnescaped c \<or> uriReserved c \<or> c = CHR ''#''")
  case True
  show ?thesis
  proof (cases "c = CHR ''#'' \<or> c = CHR ''?''")
    case True
    then have "\<not> kept c" by (auto simp: kept_def uriUnescaped_def uriReserved_def)
    then show ?thesis using True \<open>uriUnescaped c \<or> uriReserved c \<or> c = CHR ''#''\<close>
      by (simp add: enc1_def)
  next
    case False
    then have "kept c" using True by (auto simp: kept_def)
    then show ?thesis using True False by (simp add: enc1_def)
  qed
next
  case False
  then have nk: "\<not> kept c" by (auto simp: kept_def)
  have "\<forall>x \<in> set (percent_byte c). \<not> (x = CHR ''#'' \<or> x = CHR ''?'')"
    using ordinary_percent_byte[of c] by (auto simp: ordinary_def path_delimiter_def)
  then have "concat (map (\<lambda>x. if x = CHR ''#'' \<or> x = CHR ''?'' then percent_byte x else [x])
               (percent_byte c)) = percent_byte c"
    by (simp add: percent_byte_def)
  then show ?thesis using False nk by (simp add: enc1_def)
qed

lemma encode_then_replace:
  "replace_chars (\<lambda>c. c = CHR ''#'' \<or> c = CHR ''?'') js_encodeURIComponent
     (concat (map (\<lambda>c. if uriUnescaped c \<or> uriReserved c \<or> c = CHR ''#'' then [c]
                          else percent_byte c) s))
   = Inr (concat (map enc1 s))"
proof -
  have "concat (map (\<lambda>x. if x = CHR ''#'' \<or> x = CHR ''?'' then percent_byte x else [x])
          (concat (map (\<lambda>c. if uriUnescaped c \<or> uriReserved c \<or> c = CHR ''#'' then [c]
                          else percent_byte c) s)))
        = concat (map enc1 s)"
    by (induction s) (simp_all only: list.map concat.simps map_append concat_append
          replace_after_encode_char)
  then show ?thesis
    using replace_chars_encodeURIComponent[of "\<lambda>c. c = CHR ''#'' \<or> c = CHR ''?''"]
      hash_question_not_unescaped by simp
qed

lemma enc1_file_prefix: "concat (map enc1 ''file://'') = ''file://''"
  by (simp add: enc1_def kept_def uriUnescaped_def uriReserved_def)

lemma pathToUri_file:
  assumes parse: "url_parse P p = Some u" and proto: "protocol u = ''file:''"
    and enc: "encodeURI P = js_encodeURI" and encc: "encodeURIComponent P = js_encodeURIComponent"
    and slash: "p = CHR ''/'' # q" and nobs: "CHR 0x5C \<notin> set p"
  shows "pathToUri P p = Inr (''file://'' @ concat (map enc1 p))"
proof -
  have same: "map (\<lambda>c. if c = CHR 0x5C then CHR ''/'' else c) p = p"
    using nobs by (induction p) auto
  have "pathToUri P p
          = replace_chars (\<lambda>c. c = CHR ''#'' \<or> c = CHR ''?'') js_encodeURIComponent
              (concat (map (\<lambda>c. if uriUnescaped c \<or> uriReserved c \<or> c = CHR ''#'' then [c]
                          else percent_byte c) (''file://'' @ p)))"
    unfolding pathToUri_def parse same using proto
    by (simp add: enc encc js_encodeURI_def slash Let_def)
  also have "\<dots> = Inr (concat (map enc1 (''file://'' @ p)))" by (rule encode_then_replace)
  also have "\<dots> = Inr (''file://'' @ concat (map enc1 p))"
    using enc1_file_prefix by (simp only: map_append concat_append)
  finally show ?thesis .
qed



lemma tab_is_c0: "tab_or_newline c \<Longrightarrow> c0_or_space c"
  by (auto simp: tab_or_newline_def c0_or_space_def)

lemma preprocess_id:
  assumes "\<forall>c \<in> set s. \<not> c0_or_space c"
  shows "preprocess s = s"
proof -
  have 1: "dropWhile c0_or_space s = s" using assms by (cases s) auto
  have 2: "dropWhile c0_or_space (rev s) = rev s" using assms by (cases "rev s") auto
  have 3: "filter (\<lambda>c. \<not> tab_or_newline c) s = s" using assms tab_is_c0 by (induction s) auto
  show ?thesis by (simp add: preprocess_def 1 2 3)
qed

lemma preprocess_slash: "\<exists>r. preprocess (CHR ''/'' # q) = CHR ''/'' # r"
proof -
  have n: "\<not> c0_or_space CHR ''/''" by (simp add: c0_or_space_def)
  have nt: "\<not> tab_or_newline CHR ''/''" by (simp add: tab_or_newline_def)
  have 1: "dropWhile c0_or_space (CHR ''/'' # q) = CHR ''/'' # q" using n by simp
  have "\<exists>zs. dropWhile c0_or_space (rev q @ [CHR ''/'']) = zs @ [CHR ''/'']"
    using n by (auto simp: dropWhile_append)
  then obtain zs where zs: "dropWhile c0_or_space (rev (CHR ''/'' # q)) = zs @ [CHR ''/'']"
    by auto
  show ?thesis unfolding preprocess_def 1 zs using nt by simp
qed

lemma scheme_of_slash: "scheme_of (CHR ''/'' # r) = None"
  by (simp add: scheme_of_def ascii_alpha_def)

lemma parse_slash_protocol:
  assumes "whatwg_url_parse host_ok other (CHR ''/'' # q) = Some u"
  shows "protocol u = ''file:''"
proof -
  obtain r where r: "preprocess (CHR ''/'' # q) = CHR ''/'' # r" using preprocess_slash by blast
  show ?thesis using assms unfolding whatwg_url_parse_def r Let_def scheme_of_slash
    by auto
qed

lemma scheme_of_file: "scheme_of (''file://'' @ x) = Some (''file'', ''//'' @ x)"
  by (simp add: scheme_of_def ascii_alpha_def scheme_char_def ascii_digit_def ascii_lower_def)

lemma file_state_root:
  "file_state host_ok (''//'' @ CHR ''/'' # y) = Some (path_state y [] [])"
  by (simp add: file_state_def file_slash_state_def file_host_state_def path_delimiter_def
        windows_drive_letter_def path_start_state_def)

lemma path_state_ordinary:
  assumes "\<forall>c \<in> set xs. ordinary c"
  shows "path_state (xs @ rest) buffer path = path_state rest (buffer @ xs) path"
  using assms
proof (induction xs arbitrary: buffer)
  case Nil
  then show ?case by simp
next
  case (Cons c xs)
  then have o: "ordinary c" and rest: "\<forall>c \<in> set xs. ordinary c" by simp_all
  from o have "c \<noteq> CHR ''/''" "c \<noteq> CHR 0x5C" "c \<noteq> CHR ''?''" "c \<noteq> CHR ''#''"
    "\<not> path_percent_encode_set c"
    by (auto simp: ordinary_def path_delimiter_def)
  then show ?case using Cons.IH[OF rest, of "buffer @ [c]"] by simp
qed



lemma lower_dot: "ascii_lower c = CHR ''.'' \<Longrightarrow> c = CHR ''.''"
proof -
  assume a: "ascii_lower c = CHR ''.''"
  show ?thesis
  proof (cases "65 \<le> (of_char c :: nat) \<and> (of_char c :: nat) \<le> 90")
    case True
    then have "ascii_lower c = char_of ((of_char c :: nat) + 32)" by (simp add: ascii_lower_def)
    with a have "(of_char (char_of ((of_char c :: nat) + 32)) :: nat) = of_char CHR ''.''" by simp
    then have "((of_char c :: nat) + 32) mod 256 = 46" by simp
    with True show ?thesis by simp
  next
    case False
    then have "ascii_lower c = c" by (auto simp: ascii_lower_def Let_def)
    then show ?thesis using a by simp
  qed
qed

lemma lower_percent: "ascii_lower CHR ''%'' = CHR ''%''"
  by (simp add: ascii_lower_def)

lemma hex_digit_lower_2:
  assumes "n < 16" and "ascii_lower (hex_digit n) = CHR ''2''"
  shows "n = 2"
  using below16[OF assms(1)] assms(2)
  by (auto simp: hex_digit_def ascii_lower_def char_of_eq_iff)

lemma hex_digit_lower_e:
  assumes "n < 16" and "ascii_lower (hex_digit n) = CHR ''e''"
  shows "n = 14"
  using below16[OF assms(1)] assms(2)
  by (auto simp: hex_digit_def ascii_lower_def char_of_eq_iff)

lemma percent_byte_dot:
  assumes "map ascii_lower (percent_byte c) = ''%2e''"
  shows "c = CHR ''.''"
proof -
  from assms have a: "ascii_lower (hex_digit (of_char c div 16)) = CHR ''2''"
    and b: "ascii_lower (hex_digit (of_char c mod 16)) = CHR ''e''"
    by (simp_all add: percent_byte_def)
  have "(of_char c :: nat) div 16 = 2" using hex_digit_lower_2[OF of_char_div16 a] .
  moreover have "(of_char c :: nat) mod 16 = 14" using hex_digit_lower_e[OF _ b] by simp
  ultimately have "(of_char c :: nat) = 46"
    using div_mult_mod_eq[of "of_char c :: nat" 16] by simp
  then have "(of_char c :: nat) = of_char CHR ''.''" by simp
  then show ?thesis by (simp only: of_char_eq_iff)
qed

lemma kept_dot: "kept CHR ''.''"
  by (simp add: kept_def uriUnescaped_def)

lemma percent_byte_length: "length (percent_byte c) = 3"
  by (simp add: percent_byte_def)



lemma lower_percent_inv: "ascii_lower c = CHR ''%'' \<Longrightarrow> c = CHR ''%''"
proof -
  assume a: "ascii_lower c = CHR ''%''"
  show ?thesis
  proof (cases "65 \<le> (of_char c :: nat) \<and> (of_char c :: nat) \<le> 90")
    case True
    then have "ascii_lower c = char_of ((of_char c :: nat) + 32)" by (simp add: ascii_lower_def)
    with a have "(of_char (char_of ((of_char c :: nat) + 32)) :: nat) = of_char CHR ''%''" by simp
    then have "((of_char c :: nat) + 32) mod 256 = 37" by simp
    with True show ?thesis by simp
  next
    case False
    then have "ascii_lower c = c" by (auto simp: ascii_lower_def Let_def)
    then show ?thesis using a by simp
  qed
qed

lemma not_kept_percent: "\<not> kept CHR ''%''"
  by (simp add: kept_def uriUnescaped_def uriReserved_def)

lemma escape_of_dot:
  assumes "ascii_lower (hex_digit (of_char c div 16)) = CHR ''2''"
    and "ascii_lower (hex_digit (of_char c mod 16)) = CHR ''e''"
  shows "c = CHR ''.''"
  using percent_byte_dot[of c] assms by (simp add: percent_byte_def lower_percent)

lemma enc1_not_nil: "enc1 c \<noteq> []"
  by (simp add: enc1_def percent_byte_def)

lemma enc_nil: "concat (map enc1 b) = [] \<longleftrightarrow> b = []"
  by (cases b) (simp_all add: enc1_not_nil)

lemma single_dot_enc:
  assumes "single_dot (concat (map enc1 b))"
  shows "b = ''.''"
proof (cases b)
  case Nil
  then show ?thesis using assms by (simp add: single_dot_def)
next
  case (Cons c b')
  show ?thesis
  proof (cases "kept c")
    case True
    then have e: "concat (map enc1 b) = c # concat (map enc1 b')" by (simp add: Cons enc1_def)
    from assms[unfolded e single_dot_def]
    have "(ascii_lower c = CHR ''.'' \<and> concat (map enc1 b') = [])
            \<or> ascii_lower c = CHR ''%''"
      by auto
    then show ?thesis
    proof
      assume "ascii_lower c = CHR ''.'' \<and> concat (map enc1 b') = []"
      then show ?thesis using lower_dot[of c] enc_nil[of b'] Cons by simp
    next
      assume "ascii_lower c = CHR ''%''"
      then have "c = CHR ''%''" by (rule lower_percent_inv)
      then show ?thesis using True not_kept_percent by simp
    qed
  next
    case False
    then have e: "concat (map enc1 b)
        = CHR ''%'' # hex_digit (of_char c div 16) # hex_digit (of_char c mod 16)
            # concat (map enc1 b')"
      by (simp add: Cons enc1_def percent_byte_def)
    from assms[unfolded e single_dot_def]
    have "ascii_lower (hex_digit (of_char c div 16)) = CHR ''2''
          \<and> ascii_lower (hex_digit (of_char c mod 16)) = CHR ''e''"
      by auto
    then have "c = CHR ''.''" using escape_of_dot by blast
    then show ?thesis using False kept_dot by simp
  qed
qed

lemma double_dot_enc:
  assumes "double_dot (concat (map enc1 b))"
  shows "b = ''..''"
proof (cases b)
  case Nil
  then show ?thesis using assms by (simp add: double_dot_def)
next
  case (Cons c b')
  show ?thesis
  proof (cases "kept c")
    case True
    then have e: "concat (map enc1 b) = c # concat (map enc1 b')" by (simp add: Cons enc1_def)
    from assms[unfolded e double_dot_def]
    have "(ascii_lower c = CHR ''.''
             \<and> map ascii_lower (concat (map enc1 b')) \<in> {''.'', ''%2e''})
            \<or> ascii_lower c = CHR ''%''"
      by auto
    then show ?thesis
    proof
      assume a: "ascii_lower c = CHR ''.''
             \<and> map ascii_lower (concat (map enc1 b')) \<in> {''.'', ''%2e''}"
      then have "single_dot (concat (map enc1 b'))" by (simp add: single_dot_def)
      then have "b' = ''.''" by (rule single_dot_enc)
      then show ?thesis using a lower_dot[of c] Cons by simp
    next
      assume "ascii_lower c = CHR ''%''"
      then have "c = CHR ''%''" by (rule lower_percent_inv)
      then show ?thesis using True not_kept_percent by simp
    qed
  next
    case False
    then have e: "concat (map enc1 b)
        = CHR ''%'' # hex_digit (of_char c div 16) # hex_digit (of_char c mod 16)
            # concat (map enc1 b')"
      by (simp add: Cons enc1_def percent_byte_def)
    from assms[unfolded e double_dot_def]
    have "ascii_lower (hex_digit (of_char c div 16)) = CHR ''2''
          \<and> ascii_lower (hex_digit (of_char c mod 16)) = CHR ''e''"
      by (auto simp: lower_percent)
    then have "c = CHR ''.''" using escape_of_dot by blast
    then show ?thesis using False kept_dot by simp
  qed
qed

lemma enc1_no_bar: "CHR ''|'' \<notin> set (enc1 c)"
proof (cases "c = CHR ''/''")
  case True
  then show ?thesis using kept_slash by (simp add: enc1_def)
next
  case False
  then show ?thesis using ordinary_enc1[of c] by (auto simp: ordinary_def)
qed

lemma enc_no_bar: "CHR ''|'' \<notin> set (concat (map enc1 b))"
  using enc1_no_bar by auto

lemma drive_letter_fix:
  assumes "windows_drive_letter s" and "CHR ''|'' \<notin> set s"
  shows "[hd s, CHR '':''] = s"
  using assms by (auto simp: windows_drive_letter_def split: list.splits)

lemma close_segment_enc:
  assumes "b \<noteq> ''.''" and "b \<noteq> ''..''"
  shows "close_segment (concat (map enc1 b)) path final = path @ [concat (map enc1 b)]"
proof -
  have 1: "\<not> double_dot (concat (map enc1 b))" using double_dot_enc assms(2) by blast
  have 2: "\<not> single_dot (concat (map enc1 b))" using single_dot_enc assms(1) by blast
  show ?thesis unfolding close_segment_def using 1 2 drive_letter_fix[OF _ enc_no_bar[of b]]
    by simp
qed

lemma enc1_slash: "enc1 CHR ''/'' = ''/''"
  using kept_slash by (simp add: enc1_def)

lemma path_state_encoded:
  assumes "''.'' \<notin> set (split_acc b q)" and "''..'' \<notin> set (split_acc b q)"
  shows "serialize_path (path_state (concat (map enc1 q)) (concat (map enc1 b)) path)
           = serialize_path path @ CHR ''/'' # concat (map enc1 (b @ q))"
  using assms
proof (induction q arbitrary: b path)
  case Nil
  then have "b \<noteq> ''.''" "b \<noteq> ''..''" by auto
  then show ?case by (simp add: close_segment_enc serialize_path_def)
next
  case (Cons c q)
  show ?case
  proof (cases "c = CHR ''/''")
    case True
    from Cons.prems True have b: "b \<noteq> ''.''" "b \<noteq> ''..''"
      and rest: "''.'' \<notin> set (split_acc [] q)" "''..'' \<notin> set (split_acc [] q)"
      by auto
    have "path_state (concat (map enc1 (c # q))) (concat (map enc1 b)) path
            = path_state (concat (map enc1 q)) (concat (map enc1 []))
                (path @ [concat (map enc1 b)])"
      using True by (simp add: enc1_slash close_segment_enc[OF b])
    then show ?thesis using Cons.IH[OF rest, of "path @ [concat (map enc1 b)]"] True
      by (simp add: serialize_path_def enc1_slash)
  next
    case False
    from Cons.prems False have rest: "''.'' \<notin> set (split_acc (b @ [c]) q)"
      "''..'' \<notin> set (split_acc (b @ [c]) q)"
      by auto
    have "path_state (concat (map enc1 (c # q))) (concat (map enc1 b)) path
            = path_state (concat (map enc1 q)) (concat (map enc1 (b @ [c]))) path"
      using path_state_ordinary[OF ordinary_enc1[OF False], of "concat (map enc1 q)"
          "concat (map enc1 b)" path]
      by simp
    then show ?thesis using Cons.IH[OF rest, of path] by simp
  qed
qed



lemma tokenize_lit:
  assumes "c \<noteq> CHR ''%''"
  shows "tokenize (c # s) = map_option (\<lambda>ts. Lit c # ts) (tokenize s)"
proof (cases s)
  case Nil
  then show ?thesis using assms by simp
next
  case (Cons d r)
  then show ?thesis using assms by (cases r) simp_all
qed

lemma hex_val_digit:
  assumes "n < 16"
  shows "hex_val (hex_digit n) = Some n"
  using below16[OF assms] by (auto simp: hex_digit_def hex_val_def)

lemma tokenize_esc:
  "tokenize (percent_byte c @ s) = map_option (\<lambda>ts. Esc (of_char c) # ts) (tokenize s)"
proof -
  have a: "hex_val (hex_digit (of_char c div 16)) = Some (of_char c div 16)"
    by (rule hex_val_digit[OF of_char_div16])
  have b: "hex_val (hex_digit (of_char c mod 16)) = Some (of_char c mod 16)"
    by (rule hex_val_digit) simp
  have "16 * ((of_char c :: nat) div 16) + of_char c mod 16 = of_char c" by simp
  then show ?thesis by (simp add: percent_byte_def a b)
qed

lemma kept_ascii: "kept c \<Longrightarrow> (of_char c :: nat) < 0x80"
  using kept_chars[of c] by auto

lemma tokenize_enc: "tokenize (concat (map enc1 p)) = Some (map tok1 p)"
proof (induction p)
  case Nil
  show ?case by simp
next
  case (Cons c p)
  show ?case
  proof (cases "kept c")
    case True
    then have "c \<noteq> CHR ''%''" using not_kept_percent by auto
    then show ?thesis using True Cons.IH by (simp add: enc1_def tok1_def tokenize_lit)
  next
    case False
    then show ?thesis using Cons.IH by (simp add: enc1_def tok1_def tokenize_esc)
  qed
qed

lemma tok1_high: "(of_char c :: nat) \<ge> 0x80 \<Longrightarrow> tok1 c = Esc (of_char c)"
  using kept_ascii[of c] by (auto simp: tok1_def)

lemma decode_low:
  assumes "(of_char c :: nat) < 0x80"
  shows "decode_units (tok1 c # ts) = map_option (\<lambda>r. c # r) (decode_units ts)"
  using assms by (simp add: tok1_def)

lemma decode_enc:
  assumes "utf8 p"
  shows "decode_units (map tok1 p) = Some p"
  using assms
proof (induction "length p" arbitrary: p rule: less_induct)
  case less
  show ?case
  proof (cases p)
    case Nil
    then show ?thesis by simp
  next
    case (Cons c cs)
    let ?b = "of_char c :: nat"
    consider (one) "?b < 0x80" | (two) "0x80 \<le> ?b" "?b < 0xE0"
      | (three) "0xE0 \<le> ?b" "?b < 0xF0" | (four) "0xF0 \<le> ?b"
      by linarith
    then show ?thesis
    proof cases
      case one
      then have u: "utf8 cs" using less.prems Cons by simp
      have "decode_units (map tok1 cs) = Some cs" using less.hyps[of cs] u Cons by simp
      then show ?thesis using one Cons by (simp add: decode_low)
    next
      case two
      from less.prems Cons two obtain c1 rest where cs: "cs = c1 # rest"
        and v: "valid2 ?b (of_char c1)" and u: "utf8 rest"
        by (auto simp: Let_def split: list.splits)
      have h1: "(of_char c1 :: nat) \<ge> 0x80" using v by (simp add: valid2_def continuation_def)
      have r: "decode_units (map tok1 rest) = Some rest"
        using less.hyps[of rest] u Cons cs by simp
      show ?thesis unfolding Cons cs
        using two v r by (simp add: tok1_high[OF two(1)] tok1_high[OF h1])
    next
      case three
      from less.prems Cons three obtain c1 c2 rest where cs: "cs = c1 # c2 # rest"
        and v: "valid3 ?b (of_char c1) (of_char c2)" and u: "utf8 rest"
        by (auto simp: Let_def split: list.splits)
      have h1: "(of_char c1 :: nat) \<ge> 0x80" and h2: "(of_char c2 :: nat) \<ge> 0x80"
        using v by (simp_all add: valid3_def continuation_def)
      have hb: "?b \<ge> 0x80" using three by simp
      have r: "decode_units (map tok1 rest) = Some rest"
        using less.hyps[of rest] u Cons cs by simp
      show ?thesis unfolding Cons cs
        using three v r by (simp add: tok1_high[OF hb] tok1_high[OF h1] tok1_high[OF h2])
    next
      case four
      from less.prems Cons four obtain c1 c2 c3 rest where cs: "cs = c1 # c2 # c3 # rest"
        and v: "valid4 ?b (of_char c1) (of_char c2) (of_char c3)" and u: "utf8 rest"
        by (auto simp: Let_def split: list.splits)
      have h1: "(of_char c1 :: nat) \<ge> 0x80" and h2: "(of_char c2 :: nat) \<ge> 0x80"
        and h3: "(of_char c3 :: nat) \<ge> 0x80"
        using v by (simp_all add: valid4_def continuation_def)
      have hb: "?b \<ge> 0x80" using four by simp
      have r: "decode_units (map tok1 rest) = Some rest"
        using less.hyps[of rest] u Cons cs by simp
      show ?thesis unfolding Cons cs
        using four v r
        by (simp add: tok1_high[OF hb] tok1_high[OF h1] tok1_high[OF h2] tok1_high[OF h3])
    qed
  qed
qed

lemma decodeURIComponent_enc:
  assumes "utf8 p"
  shows "js_decodeURIComponent (concat (map enc1 p)) = Inr p"
  by (simp add: js_decodeURIComponent_def tokenize_enc decode_enc[OF assms])

lemma enc1_no_space: "\<forall>x \<in> set (enc1 c). \<not> c0_or_space x"
proof (cases "c = CHR ''/''")
  case True
  then show ?thesis by (simp add: enc1_slash c0_or_space_def)
next
  case False
  then show ?thesis using ordinary_enc1[of c] by (auto simp: ordinary_def)
qed

lemma enc_no_space: "\<forall>x \<in> set (concat (map enc1 p)). \<not> c0_or_space x"
  using enc1_no_space by auto

lemma preprocess_file_uri:
  "preprocess (''file://'' @ concat (map enc1 p)) = ''file://'' @ concat (map enc1 p)"
proof (rule preprocess_id)
  have "\<forall>x \<in> set ''file://''. \<not> c0_or_space x" by (simp add: c0_or_space_def)
  then show "\<forall>c \<in> set (''file://'' @ concat (map enc1 p)). \<not> c0_or_space c"
    using enc_no_space[of p] by (simp only: set_append) blast
qed

lemma parse_file_uri:
  assumes "''.'' \<notin> set (path_segments (CHR ''/'' # q))"
    and "''..'' \<notin> set (path_segments (CHR ''/'' # q))"
  shows "whatwg_url_parse host_ok other (''file://'' @ concat (map enc1 (CHR ''/'' # q)))
           = Some (URL ''file:'' (concat (map enc1 (CHR ''/'' # q))))"
proof -
  from assms have d: "''.'' \<notin> set (split_acc [] q)" "''..'' \<notin> set (split_acc [] q)"
    by (simp_all add: path_segments_def)
  have e: "concat (map enc1 (CHR ''/'' # q)) = CHR ''/'' # concat (map enc1 q)"
    by (simp add: enc1_slash)
  have s: "serialize_path (path_state (concat (map enc1 q)) [] [])
             = CHR ''/'' # concat (map enc1 q)"
    using path_state_encoded[OF d, of "[]"] by (simp add: serialize_path_def)
  have f: "file_state host_ok (''//'' @ CHR ''/'' # concat (map enc1 q))
             = Some (path_state (concat (map enc1 q)) [] [])"
    by (rule file_state_root)
  have sch: "scheme_of (''file://'' @ CHR ''/'' # concat (map enc1 q))
               = Some (''file'', ''//'' @ CHR ''/'' # concat (map enc1 q))"
    by (rule scheme_of_file)
  have pre: "preprocess (''file://'' @ CHR ''/'' # concat (map enc1 q))
               = ''file://'' @ CHR ''/'' # concat (map enc1 q)"
    using preprocess_file_uri[of "CHR ''/'' # q"] unfolding e .
  show ?thesis
    unfolding e whatwg_url_parse_def pre Let_def sch
    by (simp only: option.case prod.case f option.map s) simp
qed

lemma uriToPath_file_uri:
  assumes P: "P = js_platform host_ok other False compare"
    and wf: "utf8 (CHR ''/'' # q)"
    and d1: "''.'' \<notin> set (path_segments (CHR ''/'' # q))"
    and d2: "''..'' \<notin> set (path_segments (CHR ''/'' # q))"
  shows "uriToPath P (''file://'' @ concat (map enc1 (CHR ''/'' # q))) = Inr (CHR ''/'' # q)"
proof -
  have parse: "url_parse P (''file://'' @ concat (map enc1 (CHR ''/'' # q)))
                 = Some (URL ''file:'' (concat (map enc1 (CHR ''/'' # q))))"
    unfolding P js_platform_def using parse_file_uri[OF d1 d2] by simp
  have dec: "decodeURIComponent P (concat (map enc1 (CHR ''/'' # q))) = Inr (CHR ''/'' # q)"
    unfolding P js_platform_def using decodeURIComponent_enc[OF wf] by simp
  have w: "\<not> win32 P" unfolding P js_platform_def by simp
  show ?thesis unfolding uriToPath_def parse using dec w by simp
qed

lemma pathToUri_js:
  assumes P: "P = js_platform host_ok other False compare"
    and slash: "p = CHR ''/'' # q" and nobs: "CHR 0x5C \<notin> set p"
    and accepted: "url_parse P p \<noteq> None"
  shows "pathToUri P p = Inr (''file://'' @ concat (map enc1 p))"
proof -
  from accepted obtain u where u: "url_parse P p = Some u" by auto
  then have "whatwg_url_parse host_ok other (CHR ''/'' # q) = Some u"
    unfolding P js_platform_def slash by simp
  then have proto: "protocol u = ''file:''" by (rule parse_slash_protocol)
  have enc: "encodeURI P = js_encodeURI" unfolding P js_platform_def by simp
  have encc: "encodeURIComponent P = js_encodeURIComponent" unfolding P js_platform_def by simp
  show ?thesis by (rule pathToUri_file[OF u proto enc encc slash nobs])
qed

lemma foreign_scheme_unchanged:
  assumes "url_parse P s = Some v" and "protocol v \<noteq> ''file:''"
  shows "pathToUri P s = Inr s \<and> uriToPath P s = Inr s"
  using assms by (simp add: pathToUri_def uriToPath_def)

text \<open>
  C10 (as amended). On the platform model that is not Windows, a path \<open>p\<close> that
  begins with \<open>/\<close>, has no backslash, is well-formed (the UTF-8 encoding of a string
  without lone surrogates), is accepted by the URL constructor and has no segment
  \<open>.\<close> or \<open>..\<close> is given back by \<open>uriToPath\<close> from the URI that \<open>pathToUri\<close> makes of
  it, whatever other characters (spaces, \<open>#\<close>, \<open>?\<close>) it contains. On any platform, a string that parses as a URL whose scheme is not
  \<open>file:\<close> is returned unchanged by \<open>pathToUri\<close> and by \<open>uriToPath\<close>.
\<close>

theorem conversion_round_trip:
  "(P = js_platform host_ok other False compare \<and> p = CHR ''/'' # q \<and> CHR 0x5C \<notin> set p
      \<and> utf8 p \<and> url_parse P p \<noteq> None
      \<and> ''.'' \<notin> set (path_segments p) \<and> ''..'' \<notin> set (path_segments p)
    \<longrightarrow> (\<exists>u. pathToUri P p = Inr u \<and> uriToPath P u = Inr p))
   \<and> (url_parse P' s = Some v \<and> protocol v \<noteq> ''file:''
    \<longrightarrow> pathToUri P' s = Inr s \<and> uriToPath P' s = Inr s)"
proof (intro conjI impI)
  assume a: "P = js_platform host_ok other False compare \<and> p = CHR ''/'' # q
      \<and> CHR 0x5C \<notin> set p \<and> utf8 p \<and> url_parse P p \<noteq> None
      \<and> ''.'' \<notin> set (path_segments p) \<and> ''..'' \<notin> set (path_segments p)"
  then have P: "P = js_platform host_ok other False compare" and slash: "p = CHR ''/'' # q"
    and nobs: "CHR 0x5C \<notin> set p" and wf: "utf8 p" and acc: "url_parse P p \<noteq> None"
    and d1: "''.'' \<notin> set (path_segments p)" and d2: "''..'' \<notin> set (path_segments p)"
    by blast+
  have 1: "pathToUri P p = Inr (''file://'' @ concat (map enc1 p))"
    by (rule pathToUri_js[OF P slash nobs acc])
  have 2: "uriToPath P (''file://'' @ concat (map enc1 p)) = Inr p"
    using uriToPath_file_uri[OF P wf[unfolded slash] d1[unfolded slash] d2[unfolded slash]]
    unfolding slash .
  show "\<exists>u. pathToUri P p = Inr u \<and> uriToPath P u = Inr p" using 1 2 by blast
next
  assume "url_parse P' s = Some v \<and> protocol v \<noteq> ''file:''"
  then show "pathToUri P' s = Inr s" using foreign_scheme_unchanged by blast
next
  assume "url_parse P' s = Some v \<and> protocol v \<noteq> ''file:''"
  then show "uriToPath P' s = Inr s" using foreign_scheme_unchanged by blast
qed

lemma demo_parse_path:
  "url_parse demo_js ''/a b/c#d?e.txt'' = Some (URL ''file:'' ''/a%20b/c'')"
  by code_simp

lemma demo_parse_http:
  "url_parse demo_js ''http://example.com/x'' = Some (URL ''http:'' ''//example.com/x'')"
  by code_simp

text \<open>
  The theorem at the path \<open>/a b/c#d?e.txt\<close> and at the string \<open>http://example.com/x\<close>.
\<close>

theorem conversion_round_trip_witness:
  "(\<exists>u. pathToUri demo_js ''/a b/c#d?e.txt'' = Inr u \<and> uriToPath demo_js u = Inr ''/a b/c#d?e.txt'')
   \<and> pathToUri demo_js ''http://example.com/x'' = Inr ''http://example.com/x''
   \<and> uriToPath demo_js ''http://example.com/x'' = Inr ''http://example.com/x''"
  using conversion_round_trip[of demo_js "\<lambda>host. True" "\<lambda>scheme rest. Some rest" "\<lambda>a b. 0"
      "''/a b/c#d?e.txt''" "''a b/c#d?e.txt''" demo_js "''http://example.com/x''"
      "URL ''http:'' ''//example.com/x''"]
    demo_parse_path demo_parse_http
  by (simp add: demo_js_def path_segments_def)

text \<open>
  A path with a segment \<open>..\<close> or \<open>.\<close> does not come back: the URL parser, which
  \<open>uriToPath\<close> calls, resolves the dot segments of the encoded URI, so \<open>/a/../b\<close>
  returns as \<open>/b\<close> and \<open>/a/./b\<close> as \<open>/a/b\<close>.
\<close>

theorem round_trip_dot_segments_counterexample:
  "\<not> win32 demo_js
   \<and> pathToUri demo_js ''/a/../b'' = Inr ''file:///a/../b''
   \<and> uriToPath demo_js ''file:///a/../b'' = Inr ''/b''
   \<and> pathToUri demo_js ''/a/./b'' = Inr ''file:///a/./b''
   \<and> uriToPath demo_js ''file:///a/./b'' = Inr ''/a/b''"
  by code_simp

section \<open>Properties of applying workspace edits\<close>

subsection \<open>Checkpoints on the undo stack\<close>











subsection \<open>What a task keeps\<close>




subsection \<open>The handler of a rejection\<close>






subsection \<open>The steps of a run\<close>











subsection \<open>The example edit\<close>






end
